theory Spec2Isabelle
  imports Complex_Main "HOL-Library.Word"
begin

section \<open>Data model\<close>

text \<open>
  The program is a Win32 application: \<open>wchar_t\<close> is a 16-bit code unit and \<open>int\<close> is a
  32-bit two's complement integer. A \<open>std::wstring\<close> is a list of code units, a
  \<open>std::string\<close> a list of bytes (\<open>string\<close>). Signed comparisons of counters read the
  word with \<open>sint\<close>; \<open>counter++\<close> is \<open>+ 1\<close> on the word (it wraps at \<open>INT_MAX\<close>, where
  C++ leaves the result undefined). Roster indices, sizes and loop counters, which the
  source keeps in \<open>int\<close> and which never leave \<open>[0, size]\<close>, are natural numbers.
\<close>

type_synonym wchar_t = "16 word"
type_synonym wstring = "wchar_t list"

record NameEntry =
  name :: wstring
  counter :: "32 word"

text \<open>A wide literal \<open>L"..."\<close> whose characters are all 7-bit.\<close>

definition L :: "string \<Rightarrow> wstring" where
  "L s = map (\<lambda>c. of_nat (of_char c)) s"

section \<open>Helpers: string conversions\<close>

text \<open>
  \<open>Utf8ToWide\<close> and \<open>WideToUtf8\<close> wrap the Win32 calls \<open>MultiByteToWideChar\<close> and
  \<open>WideCharToMultiByte\<close> with code page \<open>CP_UTF8\<close>. The two calls belong to the
  operating system; they are parameters (\<open>mb2wc\<close>, \<open>wc2mb\<close>) of every function that
  reaches them. \<open>ascii_mb2wc\<close> and \<open>ascii_wc2mb\<close> are what the calls compute on 7-bit
  text, where UTF-8 and UTF-16 agree unit for unit; they serve to evaluate the model on
  concrete 7-bit inputs.
\<close>

definition Utf8ToWide :: "(string \<Rightarrow> wstring) \<Rightarrow> string \<Rightarrow> wstring" where
  "Utf8ToWide mb2wc s = (if s = [] then [] else mb2wc s)"

definition WideToUtf8 :: "(wstring \<Rightarrow> string) \<Rightarrow> wstring \<Rightarrow> string" where
  "WideToUtf8 wc2mb w = (if w = [] then [] else wc2mb w)"

definition ascii_mb2wc :: "string \<Rightarrow> wstring" where
  "ascii_mb2wc s = map (\<lambda>c. of_nat (of_char c)) s"

definition ascii_wc2mb :: "wstring \<Rightarrow> string" where
  "ascii_wc2mb w = map (\<lambda>u. char_of (unat u)) w"

text \<open>\<open>std::basic_string\<close> members used by \<open>Trim\<close>; \<open>None\<close> is \<open>npos\<close>.\<close>

definition find_first_not_of :: "'a list \<Rightarrow> 'a list \<Rightarrow> nat option" where
  "find_first_not_of s cs =
     (let k = length (takeWhile (\<lambda>c. c \<in> set cs) s)
      in if k = length s then None else Some k)"

definition find_last_not_of :: "'a list \<Rightarrow> 'a list \<Rightarrow> nat option" where
  "find_last_not_of s cs =
     (let k = length (takeWhile (\<lambda>c. c \<in> set cs) (rev s))
      in if k = length s then None else Some (length s - 1 - k))"

definition substr :: "'a list \<Rightarrow> nat \<Rightarrow> nat \<Rightarrow> 'a list" where
  "substr s pos n = take n (drop pos s)"

text \<open>
  \<open>Trim\<close>: the leading set is \<open>L" \t\r\n\xFEFF"\<close>, the trailing set \<open>L" \t\r\n"\<close>. When
  \<open>b\<close> exists, \<open>e\<close> exists too and \<open>b \<le> e\<close> (the unit at \<open>b\<close> is outside the larger
  set); were \<open>e\<close> \<open>npos\<close>, the unsigned \<open>e - b + 1\<close> would exceed the size and \<open>substr\<close>
  would return the rest from \<open>b\<close>.
\<close>

definition Trim :: "wstring \<Rightarrow> wstring" where
  "Trim s =
     (case find_first_not_of s [0x20, 0x09, 0x0D, 0x0A, 0xFEFF] of
        None \<Rightarrow> []
      | Some b \<Rightarrow>
          (case find_last_not_of s [0x20, 0x09, 0x0D, 0x0A] of
             None \<Rightarrow> drop b s
           | Some e \<Rightarrow> substr s b (e - b + 1)))"

section \<open>CSV loading and saving\<close>

definition DetectDelimiter :: "string \<Rightarrow> char" where
  "DetectDelimiter firstLine =
     (let semicolons = length (filter (\<lambda>c. c = CHR '';'') firstLine);
          commas = length (filter (\<lambda>c. c = CHR '','') firstLine)
      in if semicolons \<ge> commas then CHR '';'' else CHR '','')"

text \<open>
  \<open>std::getline(stream, line, delim)\<close> on the unread rest of a stream: it fails
  (\<open>None\<close>) when nothing is left; otherwise it yields the characters before the first
  \<open>delim\<close> and leaves what follows that \<open>delim\<close>.
\<close>

definition getline :: "char \<Rightarrow> string \<Rightarrow> (string \<times> string) option" where
  "getline delim s =
     (if s = [] then None
      else Some (takeWhile (\<lambda>c. c \<noteq> delim) s, drop 1 (dropWhile (\<lambda>c. c \<noteq> delim) s)))"

text \<open>
  \<open>std::stoi(str)\<close>, base 10: leading white space (\<open>isspace\<close> of the C locale) is
  skipped, one sign is accepted, then the longest run of digits is read. It throws
  \<open>invalid_argument\<close> without a digit and \<open>out_of_range\<close> when the value does not fit
  \<open>int\<close>; both are \<open>None\<close> here.
\<close>

definition isspace :: "char \<Rightarrow> bool" where
  "isspace c \<longleftrightarrow> c \<in> {CHR '' '', CHR 0x09, CHR 0x0A, CHR 0x0B, CHR 0x0C, CHR 0x0D}"

definition isdigit :: "char \<Rightarrow> bool" where
  "isdigit c \<longleftrightarrow> 48 \<le> (of_char c :: nat) \<and> (of_char c :: nat) \<le> 57"

definition digits_value :: "string \<Rightarrow> nat" where
  "digits_value ds = foldl (\<lambda>v c. 10 * v + (of_char c - 48)) 0 ds"

definition stoi :: "string \<Rightarrow> 32 word option" where
  "stoi str =
     (let s1 = dropWhile isspace str;
          neg = (s1 \<noteq> [] \<and> hd s1 = CHR ''-'');
          s2 = (if s1 \<noteq> [] \<and> (hd s1 = CHR ''-'' \<or> hd s1 = CHR ''+'') then tl s1 else s1);
          ds = takeWhile isdigit s2;
          v = (if neg then - int (digits_value ds) else int (digits_value ds))
      in if ds = [] then None
         else if - (2 ^ 31) \<le> v \<and> v \<le> 2 ^ 31 - 1 then Some (word_of_int v)
         else None)"

text \<open>\<open>std::to_string(int)\<close>: the decimal digits, after \<open>-\<close> for a negative value.\<close>

fun dec_digits :: "nat \<Rightarrow> string" where
  "dec_digits n =
     (if n < 10 then [char_of (48 + n)]
      else dec_digits (n div 10) @ [char_of (48 + n mod 10)])"

declare dec_digits.simps [simp del]

definition to_string :: "32 word \<Rightarrow> string" where
  "to_string x = (if sint x < 0 then CHR ''-'' # dec_digits (nat (- sint x))
                  else dec_digits (nat (sint x)))"

text \<open>
  One pass of the body of \<open>while (std::getline(stream, line))\<close> in \<open>LoadCSV\<close>: the
  entries the line appends to \<open>g_entries\<close> (none when the line is skipped). The source
  has the loop twice, once per way of opening the file, with the same body.
\<close>

definition parse_line :: "(string \<Rightarrow> wstring) \<Rightarrow> char \<Rightarrow> string \<Rightarrow> NameEntry list" where
  "parse_line mb2wc delim line =
     (if line = [] then []
      else
        let (nameField, ls1) = (case getline delim line of None \<Rightarrow> ([], []) | Some r \<Rightarrow> r);
            counterField = (case getline delim ls1 of None \<Rightarrow> [] | Some r \<Rightarrow> fst r);
            wname = Trim (Utf8ToWide mb2wc nameField)
        in if wname = [] \<or> wname = L ''nan'' \<or> wname = L ''None'' then []
           else let cnt = (case stoi counterField of None \<Rightarrow> 0 | Some v \<Rightarrow> v)
                in [\<lparr>name = wname, counter = cnt\<rparr>])"

function read_rows :: "(string \<Rightarrow> wstring) \<Rightarrow> char \<Rightarrow> string \<Rightarrow> NameEntry list \<Rightarrow> NameEntry list" where
  "read_rows mb2wc delim stream entries =
     (case getline CHR 0x0A stream of
        None \<Rightarrow> entries
      | Some (line, rest) \<Rightarrow> read_rows mb2wc delim rest (entries @ parse_line mb2wc delim line))"
  by pat_completeness auto
termination
proof (relation "measure (\<lambda>(mb2wc, delim, stream, entries). length stream)")
  show "wf (measure (\<lambda>(mb2wc :: string \<Rightarrow> wstring, delim :: char, stream :: string,
                        entries :: NameEntry list). length stream))"
    by simp
next
  fix mb2wc :: "string \<Rightarrow> wstring" and delim :: char and stream :: string
    and entries :: "NameEntry list" and x2 :: "string \<times> string" and line rest :: string
  assume "getline CHR 0x0A stream = Some x2" and "(line, rest) = x2"
  then have "stream \<noteq> []" and "rest = drop 1 (dropWhile (\<lambda>c. c \<noteq> CHR 0x0A) stream)"
    by (auto simp: getline_def split: if_splits)
  moreover have "length (dropWhile (\<lambda>c. c \<noteq> CHR 0x0A) stream) \<le> length stream"
    by (rule length_dropWhile_le)
  ultimately have "length rest < length stream"
    by (cases stream) auto
  then show "((mb2wc, delim, rest, entries @ parse_line mb2wc delim line),
              (mb2wc, delim, stream, entries))
             \<in> measure (\<lambda>(mb2wc, delim, stream, entries). length stream)"
    by simp
qed

declare read_rows.simps [simp del]

text \<open>
  What both branches of \<open>LoadCSV\<close> do with the opened stream: read the header line,
  detect the delimiter, clear \<open>g_entries\<close>, read the rows, and return whether any entry
  was read. The result is the returned flag and the new \<open>g_entries\<close>.
\<close>

definition load_stream :: "(string \<Rightarrow> wstring) \<Rightarrow> string \<Rightarrow> bool \<times> NameEntry list" where
  "load_stream mb2wc content =
     (let (line, rest) = (case getline CHR 0x0A content of None \<Rightarrow> ([], []) | Some r \<Rightarrow> r);
          delim = DetectDelimiter line;
          entries = read_rows mb2wc delim rest []
      in (entries \<noteq> [], entries))"

text \<open>
  \<open>LoadCSV\<close>. The file system's answer to the two ways of opening \<open>path\<close> is given:
  \<open>ifs\<close> is what \<open>std::ifstream\<close> delivers when it opens, \<open>fp\<close> the bytes that
  \<open>_wfopen(path, L"rb")\<close> and \<open>fread\<close> deliver when that opens. \<open>g_entries\<close> is passed
  in and returned with the flag.
\<close>

definition LoadCSV ::
  "(string \<Rightarrow> wstring) \<Rightarrow> string option \<Rightarrow> string option \<Rightarrow> NameEntry list \<Rightarrow> bool \<times> NameEntry list" where
  "LoadCSV mb2wc ifs fp g_entries =
     (case ifs of
        None \<Rightarrow> (case fp of None \<Rightarrow> (False, g_entries) | Some buf \<Rightarrow> load_stream mb2wc buf)
      | Some content \<Rightarrow> load_stream mb2wc content)"

text \<open>The roster a byte string parses to, and the bytes \<open>SaveCSV\<close> writes for a roster.\<close>

definition parse :: "(string \<Rightarrow> wstring) \<Rightarrow> string \<Rightarrow> NameEntry list" where
  "parse mb2wc bytes = snd (load_stream mb2wc bytes)"

definition entry_line :: "(wstring \<Rightarrow> string) \<Rightarrow> NameEntry \<Rightarrow> string" where
  "entry_line wc2mb e =
     WideToUtf8 wc2mb (name e) @ '';'' @ to_string (counter e) @ [CHR 0x0D, CHR 0x0A]"

definition serialize :: "(wstring \<Rightarrow> string) \<Rightarrow> NameEntry list \<Rightarrow> string" where
  "serialize wc2mb entries =
     [CHR 0xEF, CHR 0xBB, CHR 0xBF] @ (''Name;Counter'' @ [CHR 0x0D, CHR 0x0A])
       @ concat (map (entry_line wc2mb) entries)"

text \<open>
  The file system that \<open>SaveCSV\<close> writes to: the files by path, and the paths that
  cannot be created, written, removed or replaced (a file another process holds open, a
  read-only location). The calls behave as the Windows C runtime documents them:
  \<open>_wfopen(p, L"wb")\<close> creates or truncates, \<open>_wremove\<close> needs the file to exist,
  \<open>_wrename\<close> fails when the new name exists, \<open>CopyFileW(a, b, FALSE)\<close> overwrites \<open>b\<close>.
\<close>

record filesys =
  files :: "wstring \<rightharpoonup> string"
  locked :: "wstring set"

definition wfopen_wb :: "wstring \<Rightarrow> filesys \<Rightarrow> filesys option" where
  "wfopen_wb p fs = (if p \<in> locked fs then None else Some (fs\<lparr>files := (files fs)(p \<mapsto> [])\<rparr>))"

definition fwrite :: "wstring \<Rightarrow> string \<Rightarrow> filesys \<Rightarrow> filesys" where
  "fwrite p bytes fs =
     fs\<lparr>files := (files fs)(p \<mapsto> (case files fs p of None \<Rightarrow> [] | Some old \<Rightarrow> old) @ bytes)\<rparr>"

definition wremove :: "wstring \<Rightarrow> filesys \<Rightarrow> bool \<times> filesys" where
  "wremove p fs =
     (if p \<in> locked fs \<or> files fs p = None then (False, fs)
      else (True, fs\<lparr>files := (files fs)(p := None)\<rparr>))"

definition wrename :: "wstring \<Rightarrow> wstring \<Rightarrow> filesys \<Rightarrow> bool \<times> filesys" where
  "wrename old new fs =
     (if files fs old = None \<or> files fs new \<noteq> None \<or> old \<in> locked fs \<or> new \<in> locked fs
      then (False, fs)
      else (True, fs\<lparr>files := ((files fs)(old := None))(new := files fs old)\<rparr>))"

definition CopyFileW :: "wstring \<Rightarrow> wstring \<Rightarrow> filesys \<Rightarrow> bool \<times> filesys" where
  "CopyFileW src dst fs =
     (if files fs src = None \<or> dst \<in> locked fs then (False, fs)
      else (True, fs\<lparr>files := (files fs)(dst := files fs src)\<rparr>))"

text \<open>
  \<open>SaveCSV\<close>: the returned flag and the file system afterwards. The results of
  \<open>fwrite\<close>, of the first \<open>_wremove\<close>, of \<open>CopyFileW\<close> and of the last \<open>_wremove\<close> are
  dropped, as in the source.
\<close>

definition SaveCSV ::
  "(wstring \<Rightarrow> string) \<Rightarrow> wstring \<Rightarrow> NameEntry list \<Rightarrow> filesys \<Rightarrow> bool \<times> filesys" where
  "SaveCSV wc2mb path g_entries fs =
     (let tmpPath = path @ L ''.tmp''
      in case wfopen_wb tmpPath fs of
           None \<Rightarrow> (False, fs)
         | Some fs1 \<Rightarrow>
             let fs2 = fwrite tmpPath [CHR 0xEF, CHR 0xBB, CHR 0xBF] fs1;
                 header = ''Name;Counter'' @ [CHR 0x0D, CHR 0x0A];
                 fs3 = fwrite tmpPath header fs2;
                 fs4 = fold (\<lambda>e. fwrite tmpPath (entry_line wc2mb e)) g_entries fs3;
                 fs5 = snd (wremove path fs4);
                 (renamed, fs6) = wrename tmpPath path fs5;
                 fs7 = (if \<not> renamed
                        then snd (wremove tmpPath (snd (CopyFileW tmpPath path fs6)))
                        else fs6)
             in (True, fs7))"

section \<open>Fairness logic\<close>

text \<open>\<open>std::min(a, b)\<close> on \<open>int\<close>: \<open>b\<close> if \<open>b < a\<close>, else \<open>a\<close>.\<close>

definition std_min :: "32 word \<Rightarrow> 32 word \<Rightarrow> 32 word" where
  "std_min a b = (if sint b < sint a then b else a)"

text \<open>
  The loop \<open>int minC = g_entries[0].counter; for (auto& e : g_entries) minC = std::min(minC, e.counter);\<close>
  shared by \<open>EligibleIndices\<close> and \<open>NormalizeCounters\<close>; both call it on a non-empty roster only.
\<close>

definition minC_loop :: "NameEntry list \<Rightarrow> 32 word" where
  "minC_loop es = fold (\<lambda>e m. std_min m (counter e)) es (counter (hd es))"

definition EligibleIndices :: "NameEntry list \<Rightarrow> nat list" where
  "EligibleIndices es =
     (if es = [] then []
      else let minC = minC_loop es
           in filter (\<lambda>i. counter (es ! i) = minC) [0..<length es])"

definition NormalizeCounters :: "NameEntry list \<Rightarrow> NameEntry list" where
  "NormalizeCounters es =
     (if es = [] then es
      else let minC = minC_loop es
           in if 0 < sint minC then map (\<lambda>e. e\<lparr>counter := counter e - minC\<rparr>) es
              else es)"

section \<open>Global application state\<close>

text \<open>
  The globals of the program that the draw logic reads or writes, the pending Win32
  timers (\<open>SetTimer\<close> adds one, \<open>KillTimer\<close> removes it), the text of the status bar, the
  captions of the message boxes shown so far, and the file system. \<open>g_scanHighlightRow\<close>
  is \<open>None\<close> for the source's \<open>-1\<close>. \<open>g_animWinnerIdx\<close> starts at \<open>-1\<close> in the source
  and is assigned by \<open>DrawNextOne\<close> before anything reads it. The delays of the timers
  (\<open>g_animDelay\<close> and the \<open>CFG_*_MS\<close> values) only set when a timer fires, never
  whether or in which order, and are left out; so are window handles and repainting.
  \<open>CFG_SPIN_ROLLOUT_FACTOR\<close> is a \<open>double\<close>; it is a rational here, and the product
  with the pool size is exact.
\<close>

datatype timer = TIMER_ANIM | TIMER_BLINK | TIMER_NEXT | TIMER_FINISH

record state =
  g_entries :: "NameEntry list"
  g_filePath :: wstring
  g_animRunning :: bool
  g_toDrawTotal :: nat
  g_drawnCount :: nat
  g_roundSelectedIdx :: "nat set"
  g_roundExcludedIdx :: "nat set"
  g_animPath :: "nat list"
  g_animWinnerIdx :: nat
  g_blinkState :: int
  g_blinkIid :: nat
  g_scanHighlightRow :: "nat option"
  g_winnerRows :: "nat set"
  CFG_SPIN_ROUNDS :: int
  CFG_SPIN_ROLLOUT_FACTOR :: rat
  CFG_BLINK_TIMES :: int
  timers :: "timer set"
  status :: wstring
  messageBoxes :: "string list"
  disk :: filesys

definition SetTimer :: "timer \<Rightarrow> state \<Rightarrow> state" where
  "SetTimer t s = s\<lparr>timers := insert t (timers s)\<rparr>"

definition KillTimer :: "timer \<Rightarrow> state \<Rightarrow> state" where
  "KillTimer t s = s\<lparr>timers := timers s - {t}\<rparr>"

definition SetStatus :: "wstring \<Rightarrow> state \<Rightarrow> state" where
  "SetStatus text s = s\<lparr>status := text\<rparr>"

definition MessageBoxW :: "string \<Rightarrow> state \<Rightarrow> state" where
  "MessageBoxW caption s = s\<lparr>messageBoxes := messageBoxes s @ [caption]\<rparr>"

definition to_wstring :: "nat \<Rightarrow> wstring" where
  "to_wstring n = L (to_string (of_nat n))"

section \<open>Highlight state\<close>

definition ClearScanHighlight :: "state \<Rightarrow> state" where
  "ClearScanHighlight s = s\<lparr>g_scanHighlightRow := None\<rparr>"

definition SetScanHighlight :: "nat \<Rightarrow> state \<Rightarrow> state" where
  "SetScanHighlight idx s = (ClearScanHighlight s)\<lparr>g_scanHighlightRow := Some idx\<rparr>"

definition SetWinnerHighlight :: "nat \<Rightarrow> state \<Rightarrow> state" where
  "SetWinnerHighlight idx s = s\<lparr>g_winnerRows := insert idx (g_winnerRows s)\<rparr>"

definition ClearWinnerHighlight :: "nat \<Rightarrow> state \<Rightarrow> state" where
  "ClearWinnerHighlight idx s = s\<lparr>g_winnerRows := g_winnerRows s - {idx}\<rparr>"

section \<open>Animation logic\<close>

definition StopAllTimers :: "state \<Rightarrow> state" where
  "StopAllTimers s =
     KillTimer TIMER_FINISH (KillTimer TIMER_NEXT (KillTimer TIMER_BLINK (KillTimer TIMER_ANIM s)))"

definition EndRoundEarly :: "state \<Rightarrow> state" where
  "EndRoundEarly s =
     SetStatus (L ''Ziehung abgebrochen.'')
       ((StopAllTimers s)\<lparr>g_animRunning := False, g_roundSelectedIdx := {},
                          g_roundExcludedIdx := {}\<rparr>)"

definition StartBlink :: "state \<Rightarrow> state" where
  "StartBlink s =
     SetTimer TIMER_BLINK (s\<lparr>g_blinkState := CFG_BLINK_TIMES s * 2, g_blinkIid := g_animWinnerIdx s\<rparr>)"

definition OnAnimTimer :: "state \<Rightarrow> state" where
  "OnAnimTimer s =
     (if g_animPath s = [] then
        let s1 = KillTimer TIMER_ANIM s;
            s2 = SetScanHighlight (g_animWinnerIdx s1) s1;
            s3 = SetWinnerHighlight (g_animWinnerIdx s2) s2;
            s4 = s3\<lparr>g_roundSelectedIdx := insert (g_animWinnerIdx s3) (g_roundSelectedIdx s3)\<rparr>;
            s5 = s4\<lparr>g_roundExcludedIdx := insert (g_animWinnerIdx s4) (g_roundExcludedIdx s4)\<rparr>
        in StartBlink s5
      else
        let idx = hd (g_animPath s);
            s1 = s\<lparr>g_animPath := tl (g_animPath s)\<rparr>;
            s2 = SetScanHighlight idx s1
        in SetTimer TIMER_ANIM s2)"

definition OnBlinkTimer :: "state \<Rightarrow> state" where
  "OnBlinkTimer s =
     (if g_blinkState s \<le> 0 then
        SetTimer TIMER_NEXT (ClearScanHighlight (SetWinnerHighlight (g_blinkIid s) (KillTimer TIMER_BLINK s)))
      else
        let s1 = (if g_blinkIid s \<in> g_winnerRows s
                  then (ClearWinnerHighlight (g_blinkIid s) s)\<lparr>g_scanHighlightRow := None\<rparr>
                  else SetWinnerHighlight (g_blinkIid s) s)
        in s1\<lparr>g_blinkState := g_blinkState s1 - 1\<rparr>)"

text \<open>
  \<open>FinishRound\<close> walks \<open>g_roundSelectedIdx\<close>, a \<open>std::set<int>\<close>: the iteration is in
  ascending order of the indices. \<open>summary_loop\<close> is the loop, on the text built so far
  and the flag \<open>first\<close>.
\<close>

definition summary_loop :: "NameEntry list \<Rightarrow> nat list \<Rightarrow> wstring \<times> bool \<Rightarrow> wstring \<times> bool" where
  "summary_loop es idxs init =
     fold (\<lambda>i (summary, first).
             ((if \<not> first then summary @ L '', '' else summary) @ name (es ! i), False))
          idxs init"

definition FinishRound :: "(wstring \<Rightarrow> string) \<Rightarrow> state \<Rightarrow> state" where
  "FinishRound wc2mb s =
     (let s1 = (if g_filePath s \<noteq> [] then
                  let (ok, fs) = SaveCSV wc2mb (g_filePath s) (g_entries s) (disk s);
                      s' = s\<lparr>disk := fs\<rparr>
                  in if \<not> ok then MessageBoxW ''Speicherfehler'' s' else s'
                else s);
          summary = fst (summary_loop (g_entries s1)
                           (sorted_list_of_set (g_roundSelectedIdx s1))
                           (L ''Runde beendet '' @ [0x2013] @ L '' Gewinner: '', True));
          s2 = SetStatus summary s1
      in s2\<lparr>g_animRunning := False, g_roundSelectedIdx := {}, g_roundExcludedIdx := {}\<rparr>)"

text \<open>
  \<open>g_entries[idx].counter++\<close>. An index outside the roster, which the source does not
  check, leaves the list as it is here; \<open>DrawNextOne\<close> never yields one.
\<close>

definition increment_counter :: "nat \<Rightarrow> NameEntry list \<Rightarrow> NameEntry list" where
  "increment_counter idx es = es[idx := (es ! idx)\<lparr>counter := counter (es ! idx) + 1\<rparr>]"

definition ApplyWinnerAndContinue :: "(wstring \<Rightarrow> string) \<Rightarrow> state \<Rightarrow> state" where
  "ApplyWinnerAndContinue wc2mb s =
     (let idx = g_animWinnerIdx s;
          s1 = s\<lparr>g_entries := increment_counter idx (g_entries s)\<rparr>;
          s2 = s1\<lparr>g_entries := NormalizeCounters (g_entries s1)\<rparr>;
          s3 = s2\<lparr>g_drawnCount := g_drawnCount s2 + 1\<rparr>;
          s4 = SetStatus (L ''Gezogen: '' @ to_wstring (g_drawnCount s3) @ L ''/''
                          @ to_wstring (g_toDrawTotal s3) @ L '' '' @ [0x2013] @ L '' Gewinner: ''
                          @ name (g_entries s3 ! idx)) s3
      in if g_drawnCount s4 < g_toDrawTotal s4 then SetTimer TIMER_FINISH s4
         else FinishRound wc2mb s4)"

definition OnNextTimer :: "(wstring \<Rightarrow> string) \<Rightarrow> state \<Rightarrow> state" where
  "OnNextTimer wc2mb s = ApplyWinnerAndContinue wc2mb (KillTimer TIMER_NEXT s)"

text \<open>
  \<open>std::uniform_int_distribution<int>(lo, hi)\<close> applied to the generator: some value of
  \<open>[lo, hi]\<close>. The generator's raw output \<open>r\<close> is an argument, reduced into the range, so
  that every \<open>r\<close> gives a value of the range and every value of the range comes from
  some \<open>r\<close>.
\<close>

definition uniform_int_distribution :: "nat \<Rightarrow> nat \<Rightarrow> nat \<Rightarrow> nat" where
  "uniform_int_distribution lo hi r = lo + r mod (hi - lo + 1)"

text \<open>The cast \<open>(int)x\<close> of a \<open>double\<close>: truncation towards zero.\<close>

definition int_cast :: "rat \<Rightarrow> int" where
  "int_cast x = (if 0 \<le> x then \<lfloor>x\<rfloor> else \<lceil>x\<rceil>)"

text \<open>
  The \<open>while (true)\<close> loop of \<open>DrawNextOne\<close>, on \<open>cur\<close>, \<open>steps\<close> and the path built so
  far; it returns the finished path.
\<close>

function rollout_loop ::
  "nat list \<Rightarrow> nat \<Rightarrow> nat \<Rightarrow> nat \<Rightarrow> nat \<Rightarrow> nat \<Rightarrow> nat list \<Rightarrow> nat list" where
  "rollout_loop filtered winnerIdx rollout maxSteps cur steps path =
     (if steps + 1 \<ge> rollout \<and> filtered ! cur = winnerIdx then path @ [filtered ! cur]
      else if steps + 1 \<ge> maxSteps then (path @ [filtered ! cur]) @ [winnerIdx]
      else rollout_loop filtered winnerIdx rollout maxSteps
             ((cur + 1) mod length filtered) (steps + 1) (path @ [filtered ! cur]))"
  by pat_completeness auto
termination
  by (relation "measure (\<lambda>(filtered, winnerIdx, rollout, maxSteps, cur, steps, path).
                           maxSteps - steps)") auto

declare rollout_loop.simps [simp del]

definition DrawNextOne :: "nat \<Rightarrow> nat \<Rightarrow> state \<Rightarrow> state" where
  "DrawNextOne r1 r2 s =
     (if g_entries s = [] then EndRoundEarly s
      else
        let elig0 = EligibleIndices (g_entries s);
            s1 = (if elig0 = [] then s\<lparr>g_entries := NormalizeCounters (g_entries s)\<rparr> else s);
            elig = (if elig0 = [] then EligibleIndices (g_entries s1) else elig0)
        in if elig = [] then EndRoundEarly s1
           else
             let filtered0 = filter (\<lambda>i. i \<notin> g_roundExcludedIdx s1) elig;
                 filtered = (if filtered0 = [] then elig else filtered0);
                 winnerIdx = filtered ! uniform_int_distribution 0 (length filtered - 1) r1;
                 laps = concat (replicate (nat (CFG_SPIN_ROUNDS s1)) filtered);
                 rollout = nat (max 1 (int_cast (of_nat (length filtered) * CFG_SPIN_ROLLOUT_FACTOR s1)));
                 cur = uniform_int_distribution 0 (length filtered - 1) r2;
                 maxSteps = rollout + length filtered * 2;
                 path = rollout_loop filtered winnerIdx rollout maxSteps cur 0 laps
             in SetTimer TIMER_ANIM (s1\<lparr>g_animWinnerIdx := winnerIdx, g_animPath := path\<rparr>))"

definition OnFinishTimer :: "nat \<Rightarrow> nat \<Rightarrow> state \<Rightarrow> state" where
  "OnFinishTimer r1 r2 s = DrawNextOne r1 r2 (KillTimer TIMER_FINISH s)"

text \<open>\<open>OnDrawClicked\<close>; \<open>n\<close> is the number \<open>_wtoi\<close> reads from the edit control.\<close>

definition OnDrawClicked :: "int \<Rightarrow> nat \<Rightarrow> nat \<Rightarrow> state \<Rightarrow> state" where
  "OnDrawClicked n r1 r2 s =
     (if g_entries s = [] \<or> g_animRunning s then s
      else if n < 1 then MessageBoxW ''Eingabe'' s
      else
        let n' = min (nat n) (length (g_entries s));
            s1 = s\<lparr>g_toDrawTotal := n', g_drawnCount := 0, g_roundSelectedIdx := {},
                   g_roundExcludedIdx := {}, g_animRunning := True\<rparr>;
            s2 = SetStatus (L ''Ziehe '' @ to_wstring n' @ L '' Person(en) '' @ [0x2026]) s1
        in DrawNextOne r1 r2 s2)"

section \<open>File loading\<close>

text \<open>
  \<open>DoLoadFile\<close>. The file name shown in the status bar is what follows the last
  backslash or slash of the path (\<open>find_last_of\<close> and \<open>substr\<close>), or the whole path.
  Filling the list view and enabling the buttons are left out.
\<close>

definition DoLoadFile ::
  "(string \<Rightarrow> wstring) \<Rightarrow> string option \<Rightarrow> string option \<Rightarrow> wstring \<Rightarrow> state \<Rightarrow> state" where
  "DoLoadFile mb2wc ifs fp path s =
     (let (ok, es) = LoadCSV mb2wc ifs fp (g_entries s);
          s1 = s\<lparr>g_entries := es\<rparr>
      in if \<not> ok then MessageBoxW ''Fehler beim Laden'' s1
         else
           let s2 = s1\<lparr>g_filePath := path\<rparr>;
               fname = rev (takeWhile (\<lambda>c. c \<noteq> 0x5C \<and> c \<noteq> 0x2F) (rev path))
           in SetStatus (L ''Geladen: '' @ to_wstring (length (g_entries s2)) @ L '' Eintr''
                         @ [0xE4] @ L ''ge aus '' @ fname) s2)"

definition OnReloadExcel ::
  "(string \<Rightarrow> wstring) \<Rightarrow> string option \<Rightarrow> string option \<Rightarrow> state \<Rightarrow> state" where
  "OnReloadExcel mb2wc ifs fp s =
     (if g_animRunning s then MessageBoxW ''Bitte warten'' s
      else if g_filePath s = [] then s
      else DoLoadFile mb2wc ifs fp (g_filePath s) s)"

section \<open>The message loop during a batch\<close>

text \<open>
  During a batch at most one timer is pending, and the window procedure calls its
  handler. \<open>run_anim\<close> delivers \<open>TIMER_ANIM\<close> until \<open>OnAnimTimer\<close> finds the path empty and
  starts the blinking; \<open>run_blink\<close> delivers \<open>TIMER_BLINK\<close> until \<open>OnBlinkTimer\<close> finds
  \<open>g_blinkState\<close> exhausted and sets \<open>TIMER_NEXT\<close>.
\<close>

function run_anim :: "state \<Rightarrow> state" where
  "run_anim s = (if g_animPath s = [] then OnAnimTimer s else run_anim (OnAnimTimer s))"
  by pat_completeness auto
termination
  by (relation "measure (\<lambda>s. length (g_animPath s))")
     (auto simp: OnAnimTimer_def SetTimer_def SetScanHighlight_def ClearScanHighlight_def Let_def)

declare run_anim.simps [simp del]

function run_blink :: "state \<Rightarrow> state" where
  "run_blink s = (if g_blinkState s \<le> 0 then OnBlinkTimer s else run_blink (OnBlinkTimer s))"
  by pat_completeness auto
termination
  by (relation "measure (\<lambda>s. nat (g_blinkState s))")
     (auto simp: OnBlinkTimer_def SetWinnerHighlight_def ClearWinnerHighlight_def Let_def)

declare run_blink.simps [simp del]

text \<open>
  One single draw from the return of \<open>DrawNextOne\<close> to the return of
  \<open>ApplyWinnerAndContinue\<close>: scan, blink, then \<open>TIMER_NEXT\<close>.
\<close>

definition settle :: "(wstring \<Rightarrow> string) \<Rightarrow> state \<Rightarrow> state" where
  "settle wc2mb s = OnNextTimer wc2mb (run_blink (run_anim s))"

text \<open>
  The rest of a batch from the return of a call of \<open>DrawNextOne\<close>, with the raw random
  numbers of the draws still to come: if that call started the animation, the draw
  is settled, and if \<open>ApplyWinnerAndContinue\<close> set \<open>TIMER_FINISH\<close> the next draw follows.
  \<open>batch_trace\<close> lists the states at the return of each \<open>DrawNextOne\<close> that started an
  animation, in the order of the draws.
\<close>

fun run_batch :: "(wstring \<Rightarrow> string) \<Rightarrow> (nat \<times> nat) list \<Rightarrow> state \<Rightarrow> state" where
  "run_batch wc2mb rs s =
     (if TIMER_ANIM \<notin> timers s then s
      else let s1 = settle wc2mb s
           in if TIMER_FINISH \<notin> timers s1 then s1
              else (case rs of
                      [] \<Rightarrow> s1
                    | (r1, r2) # rs' \<Rightarrow> run_batch wc2mb rs' (OnFinishTimer r1 r2 s1)))"

fun batch_trace :: "(wstring \<Rightarrow> string) \<Rightarrow> (nat \<times> nat) list \<Rightarrow> state \<Rightarrow> state list" where
  "batch_trace wc2mb rs s =
     (if TIMER_ANIM \<notin> timers s then []
      else let s1 = settle wc2mb s
           in if TIMER_FINISH \<notin> timers s1 then [s]
              else (case rs of
                      [] \<Rightarrow> [s]
                    | (r1, r2) # rs' \<Rightarrow> s # batch_trace wc2mb rs' (OnFinishTimer r1 r2 s1)))"

declare run_batch.simps [simp del]
declare batch_trace.simps [simp del]

text \<open>
  The pool \<open>DrawNextOne\<close> draws from (\<open>filtered\<close> in the source), as a function of the
  roster and of \<open>g_roundExcludedIdx\<close>.
\<close>

definition draw_pool :: "NameEntry list \<Rightarrow> nat set \<Rightarrow> nat list" where
  "draw_pool es excluded =
     (let elig = EligibleIndices es;
          filtered0 = filter (\<lambda>i. i \<notin> excluded) elig
      in if filtered0 = [] then elig else filtered0)"

text \<open>
  The first \<open>m\<close> positions of the circular walk over \<open>filtered\<close> that starts at offset
  \<open>cur\<close>.
\<close>

definition circ_walk :: "nat list \<Rightarrow> nat \<Rightarrow> nat \<Rightarrow> nat list" where
  "circ_walk f cur m = map (\<lambda>k. f ! ((cur + k) mod length f)) [0..<m]"

text \<open>The value \<open>rollout\<close> of \<open>DrawNextOne\<close> for a pool of \<open>n\<close> indices.\<close>

definition rollout_steps :: "nat \<Rightarrow> rat \<Rightarrow> nat" where
  "rollout_steps n factor = nat (max 1 (int_cast (of_nat n * factor)))"

text \<open>
  The state at program start, from the initializers of the globals (defaults of the spin
  configuration: 3 rounds, rollout factor 1.5, 3 blinks), with an empty file system.
  \<open>g_animWinnerIdx\<close> and \<open>g_blinkIid\<close> are \<open>-1\<close> in the source and unread until
  assigned; they are 0 here.
\<close>

definition initial_state :: state where
  "initial_state =
     \<lparr>g_entries = [], g_filePath = [], g_animRunning = False, g_toDrawTotal = 0,
      g_drawnCount = 0, g_roundSelectedIdx = {}, g_roundExcludedIdx = {}, g_animPath = [],
      g_animWinnerIdx = 0, g_blinkState = 0, g_blinkIid = 0, g_scanHighlightRow = None,
      g_winnerRows = {}, CFG_SPIN_ROUNDS = 3, CFG_SPIN_ROLLOUT_FACTOR = 3 / 2,
      CFG_BLINK_TIMES = 3, timers = {}, status = L ''Bereit.'', messageBoxes = [],
      disk = \<lparr>files = Map.empty, locked = {}\<rparr>\<rparr>"

text \<open>The roster of the scenario in the specification, loaded at program start.\<close>

definition scenario_state :: state where
  "scenario_state =
     initial_state\<lparr>g_entries := [\<lparr>name = L ''Alice'', counter = 0\<rparr>,
                                  \<lparr>name = L ''Bob'', counter = 0\<rparr>,
                                  \<lparr>name = L ''Charlie'', counter = 1\<rparr>]\<rparr>"

text \<open>A list of names separated by \<open>L", "\<close>, as the status bar shows a summary.\<close>

fun join_names :: "wstring list \<Rightarrow> wstring" where
  "join_names [] = []"
| "join_names [x] = x"
| "join_names (x # y # ys) = x @ L '', '' @ join_names (y # ys)"

section \<open>Properties of the fairness logic\<close>

lemma sint_std_min: "sint (std_min a b) = min (sint a) (sint b)"
  by (simp add: std_min_def min_def)

lemma std_min_cases: "std_min a b = a \<or> std_min a b = b"
  by (simp add: std_min_def)

lemma sint_fold_std_min:
  "sint (fold (\<lambda>e m. std_min m (counter e)) es m0) =
     Min (insert (sint m0) (sint ` counter ` set es))"
proof (induction es arbitrary: m0)
  case Nil
  then show ?case by simp
next
  case (Cons e es)
  have "Min (insert (sint (std_min m0 (counter e))) (sint ` counter ` set es))
      = Min (insert (sint m0) (insert (sint (counter e)) (sint ` counter ` set es)))"
    by (cases "set es = {}") (simp_all add: sint_std_min min.assoc)
  with Cons.IH [of "std_min m0 (counter e)"] show ?case
    by (simp add: insert_commute)
qed

lemma fold_std_min_mem:
  "fold (\<lambda>e m. std_min m (counter e)) es m0 \<in> insert m0 (counter ` set es)"
proof (induction es arbitrary: m0)
  case Nil
  then show ?case by simp
next
  case (Cons e es)
  from Cons.IH [of "std_min m0 (counter e)"] std_min_cases [of m0 "counter e"]
  show ?case by auto
qed

lemma sint_minC_loop:
  assumes "es \<noteq> []"
  shows "sint (minC_loop es) = Min (sint ` counter ` set es)"
proof -
  from assms have "sint (counter (hd es)) \<in> sint ` counter ` set es" by simp
  then have "insert (sint (counter (hd es))) (sint ` counter ` set es) = sint ` counter ` set es"
    by blast
  then show ?thesis
    by (simp add: minC_loop_def sint_fold_std_min)
qed

lemma minC_loop_mem:
  assumes "es \<noteq> []"
  shows "minC_loop es \<in> counter ` set es"
proof -
  from assms have "counter (hd es) \<in> counter ` set es" by simp
  with fold_std_min_mem [of es "counter (hd es)"] show ?thesis
    by (auto simp: minC_loop_def)
qed

lemma sint_eq_iff: "sint (a :: 32 word) = sint b \<longleftrightarrow> a = b"
  by (auto intro: signed_word_eqI)

lemma set_EligibleIndices:
  "set (EligibleIndices es) =
     {i. i < length es \<and> sint (counter (es ! i)) = Min (sint ` counter ` set es)}"
proof (cases "es = []")
  case True
  then show ?thesis by (simp add: EligibleIndices_def)
next
  case False
  have "counter (es ! i) = minC_loop es \<longleftrightarrow>
        sint (counter (es ! i)) = Min (sint ` counter ` set es)" for i
    using sint_minC_loop [OF False] by (metis sint_eq_iff)
  with False show ?thesis
    by (auto simp: EligibleIndices_def Let_def)
qed

lemma sorted_distinct_EligibleIndices:
  "distinct (EligibleIndices es) \<and> sorted (EligibleIndices es)"
  by (simp add: EligibleIndices_def Let_def sorted_wrt_filter)

lemma EligibleIndices_less: "i \<in> set (EligibleIndices es) \<Longrightarrow> i < length es"
  by (simp add: set_EligibleIndices)

lemma EligibleIndices_nonempty:
  assumes "es \<noteq> []"
  shows "EligibleIndices es \<noteq> []"
proof -
  from minC_loop_mem [OF assms] obtain i where "i < length es" "counter (es ! i) = minC_loop es"
    by (auto simp: in_set_conv_nth)
  then have "i \<in> set (EligibleIndices es)"
    using assms by (simp add: EligibleIndices_def Let_def)
  then show ?thesis by auto
qed

text \<open>
  C2. For every roster, \<open>EligibleIndices\<close> returns exactly the indices whose counter
  equals the minimum counter of the whole roster, each once and in ascending order; for
  the empty roster it returns the empty list.
\<close>

theorem EligibleIndices_exact:
  "set (EligibleIndices es) =
     {i. i < length es \<and> sint (counter (es ! i)) = Min (sint ` counter ` set es)}
   \<and> distinct (EligibleIndices es) \<and> sorted (EligibleIndices es)
   \<and> EligibleIndices [] = []"
  by (simp add: set_EligibleIndices sorted_distinct_EligibleIndices) (simp add: EligibleIndices_def)

lemma sint_sub_no_overflow:
  fixes a m :: "32 word"
  assumes "0 < sint m" "sint m \<le> sint a"
  shows "sint (a - m) = sint a - sint m"
proof -
  have "sint a < 2 ^ 31" using sint_lt [of a] by simp
  with assms have "- (2 ^ 31) \<le> sint a - sint m" "sint a - sint m < 2 ^ 31" by linarith+
  then show ?thesis
    by (simp add: sint_word_ariths signed_take_bit_int_eq_self)
qed

lemma Min_image_shift:
  fixes f :: "'a \<Rightarrow> int"
  assumes "finite A" "A \<noteq> {}"
  shows "Min ((\<lambda>x. f x - c) ` A) = Min (f ` A) - c"
proof -
  have "mono (\<lambda>y::int. y - c)" by (simp add: mono_def)
  from mono_Min_commute [OF this, of "f ` A"] assms
  show ?thesis by (simp add: image_image)
qed

lemma sint_counter_Normalize:
  assumes "es \<noteq> []" "0 < Min (sint ` counter ` set es)" "e \<in> set es"
  shows "sint (counter e - minC_loop es) = sint (counter e) - Min (sint ` counter ` set es)"
proof -
  have m: "sint (minC_loop es) = Min (sint ` counter ` set es)"
    by (rule sint_minC_loop [OF assms(1)])
  have "Min (sint ` counter ` set es) \<le> sint (counter e)"
    using assms(3) by simp
  with m assms(2) show ?thesis
    by (simp add: sint_sub_no_overflow)
qed

lemma NormalizeCounters_pos:
  assumes "es \<noteq> []" "0 < Min (sint ` counter ` set es)"
  shows "NormalizeCounters es = map (\<lambda>e. e\<lparr>counter := counter e - minC_loop es\<rparr>) es"
proof -
  from assms sint_minC_loop [OF assms(1)] have "0 < sint (minC_loop es)" by linarith
  with assms(1) show ?thesis by (simp only: NormalizeCounters_def Let_def if_False if_True)
qed

lemma NormalizeCounters_nonpos:
  assumes "Min (sint ` counter ` set es) \<le> 0"
  shows "NormalizeCounters es = es"
proof (cases "es = []")
  case True
  then show ?thesis by (simp add: NormalizeCounters_def)
next
  case False
  from assms sint_minC_loop [OF False] have "\<not> 0 < sint (minC_loop es)" by linarith
  with False show ?thesis by (simp only: NormalizeCounters_def Let_def if_False)
qed

lemma length_NormalizeCounters: "length (NormalizeCounters es) = length es"
  by (simp add: NormalizeCounters_def Let_def)

lemma name_NormalizeCounters:
  "i < length es \<Longrightarrow> name (NormalizeCounters es ! i) = name (es ! i)"
  by (simp add: NormalizeCounters_def Let_def)

lemma sint_counter_NormalizeCounters:
  assumes "i < length es"
  shows "sint (counter (NormalizeCounters es ! i)) =
         sint (counter (es ! i)) - max 0 (Min (sint ` counter ` set es))"
proof (cases "0 < Min (sint ` counter ` set es)")
  case True
  from assms have ne: "es \<noteq> []" by auto
  from assms have "es ! i \<in> set es" by simp
  from sint_counter_Normalize [OF ne True this] assms True show ?thesis
    by (simp add: NormalizeCounters_pos [OF ne True])
next
  case False
  then show ?thesis by (simp add: NormalizeCounters_nonpos)
qed

lemma Min_NormalizeCounters:
  assumes "es \<noteq> []"
  shows "Min (sint ` counter ` set (NormalizeCounters es)) =
         Min (sint ` counter ` set es) - max 0 (Min (sint ` counter ` set es))"
proof (cases "0 < Min (sint ` counter ` set es)")
  case True
  have "sint ` counter ` set (NormalizeCounters es)
      = (\<lambda>e. sint (counter e) - Min (sint ` counter ` set es)) ` set es"
    using sint_counter_Normalize [OF assms True]
    by (auto simp: NormalizeCounters_pos [OF assms True] image_iff)
  moreover have "Min ((\<lambda>e. sint (counter e) - Min (sint ` counter ` set es)) ` set es)
      = Min ((\<lambda>e. sint (counter e)) ` set es) - Min (sint ` counter ` set es)"
    using assms by (intro Min_image_shift) simp_all
  ultimately show ?thesis using True by (simp add: image_image)
next
  case False
  then show ?thesis by (simp add: NormalizeCounters_nonpos)
qed

text \<open>
  C3 (as amended). For every non-empty roster, \<open>NormalizeCounters\<close> keeps the length and
  every pairwise difference of counters; when no counter is negative the minimum counter
  is 0 afterwards; when the minimum is negative the roster is left as it is (the source
  subtracts only under \<open>if (minC > 0)\<close>).
\<close>

theorem NormalizeCounters_shift:
  assumes "es \<noteq> []"
  shows "length (NormalizeCounters es) = length es
    \<and> (\<forall>i<length es. \<forall>j<length es.
          sint (counter (NormalizeCounters es ! i)) - sint (counter (NormalizeCounters es ! j))
        = sint (counter (es ! i)) - sint (counter (es ! j)))
    \<and> (0 \<le> Min (sint ` counter ` set es) \<longrightarrow>
          Min (sint ` counter ` set (NormalizeCounters es)) = 0)
    \<and> (Min (sint ` counter ` set es) < 0 \<longrightarrow> NormalizeCounters es = es)"
  using assms
  by (simp add: length_NormalizeCounters sint_counter_NormalizeCounters
      Min_NormalizeCounters NormalizeCounters_nonpos)

theorem NormalizeCounters_shift_witness:
  "[\<lparr>name = L ''A'', counter = 3\<rparr>, \<lparr>name = L ''B'', counter = 5\<rparr>] \<noteq> []
   \<and> NormalizeCounters [\<lparr>name = L ''A'', counter = 3\<rparr>, \<lparr>name = L ''B'', counter = 5\<rparr>]
     = [\<lparr>name = L ''A'', counter = 0\<rparr>, \<lparr>name = L ''B'', counter = 2\<rparr>]
   \<and> Min (sint ` counter ` set
        (NormalizeCounters [\<lparr>name = L ''A'', counter = 3\<rparr>, \<lparr>name = L ''B'', counter = 5\<rparr>])) = 0"
  using NormalizeCounters_shift [of "[\<lparr>name = L ''A'', counter = 3\<rparr>, \<lparr>name = L ''B'', counter = 5\<rparr>]"]
  by (simp add: NormalizeCounters_def minC_loop_def std_min_def)

text \<open>
  The claim as stated fails on a roster with a negative counter, which \<open>LoadCSV\<close> accepts
  (\<open>std::stoi\<close> reads a sign): the minimum of the normalized roster is \<open>-1\<close>, not 0.
\<close>

theorem NormalizeCounters_min_counterexample:
  "[\<lparr>name = L ''A'', counter = - 1\<rparr>] \<noteq> []
   \<and> Min (sint ` counter ` set (NormalizeCounters [\<lparr>name = L ''A'', counter = - 1\<rparr>])) = - 1
   \<and> Min (sint ` counter ` set (NormalizeCounters [\<lparr>name = L ''A'', counter = - 1\<rparr>])) \<noteq> 0"
  by (simp add: NormalizeCounters_def minC_loop_def std_min_def)

section \<open>Properties of a single draw\<close>

lemma set_draw_pool: "set (draw_pool es X) \<subseteq> set (EligibleIndices es)"
  by (auto simp: draw_pool_def Let_def)

lemma draw_pool_nonempty: "es \<noteq> [] \<Longrightarrow> draw_pool es X \<noteq> []"
  by (simp add: draw_pool_def Let_def EligibleIndices_nonempty)

lemma draw_pool_fallback:
  "draw_pool es X =
     (if set (EligibleIndices es) \<subseteq> X then EligibleIndices es
      else filter (\<lambda>i. i \<notin> X) (EligibleIndices es))"
  by (auto simp: draw_pool_def Let_def filter_empty_conv)

lemma draw_pool_repeat:
  assumes "w \<in> set (draw_pool es X)" "w \<in> X"
  shows "set (EligibleIndices es) \<subseteq> X"
  using assms by (auto simp: draw_pool_fallback split: if_splits)

lemma uniform_in_range: "0 < n \<Longrightarrow> uniform_int_distribution 0 (n - 1) r < n"
  by (simp add: uniform_int_distribution_def)

lemma rollout_loop_last:
  "last (rollout_loop f w ro ms cur steps path) = w"
proof (induction f w ro ms cur steps path rule: rollout_loop.induct)
  case (1 f w ro ms cur steps path)
  show ?case
    using "1.IH" by (subst rollout_loop.simps) simp
qed

lemma rollout_loop_set:
  assumes "cur < length f"
  shows "set (rollout_loop f w ro ms cur steps path) \<subseteq> set path \<union> set f \<union> {w}"
  using assms
proof (induction f w ro ms cur steps path rule: rollout_loop.induct)
  case (1 f w ro ms cur steps path)
  from "1.prems" have n: "0 < length f" by auto
  then have c: "(cur + 1) mod length f < length f" by simp
  have m: "f ! cur \<in> set f" using "1.prems" by simp
  show ?case
  proof (cases "ro \<le> steps + 1 \<and> f ! cur = w")
    case True
    then show ?thesis using m by (subst rollout_loop.simps) auto
  next
    case nw: False
    show ?thesis
    proof (cases "ms \<le> steps + 1")
      case True
      then show ?thesis using nw m by (subst rollout_loop.simps) auto
    next
      case False
      from "1.IH" [OF nw False c] m nw False show ?thesis
        by (subst rollout_loop.simps) auto
    qed
  qed
qed

lemma circ_walk_Suc:
  assumes "cur < length f"
  shows "circ_walk f cur (Suc m) = f ! cur # circ_walk f ((cur + 1) mod length f) m"
proof -
  have "[0..<Suc m] = 0 # map Suc [0..<m]"
    by (simp add: upt_conv_Cons map_Suc_upt del: upt_Suc)
  moreover have "((cur + 1) mod length f + k) mod length f = (cur + Suc k) mod length f" for k
    by (simp add: mod_add_left_eq)
  ultimately show ?thesis using assms
    by (simp add: circ_walk_def del: upt_Suc)
qed

lemma rollout_loop_shape:
  assumes "cur < length f" "ro \<le> ms" "steps < ms"
  shows "\<exists>m\<ge>1. ro \<le> steps + m \<and> steps + m \<le> ms
          \<and> ((rollout_loop f w ro ms cur steps path = path @ circ_walk f cur m
                 \<and> last (circ_walk f cur m) = w)
              \<or> (rollout_loop f w ro ms cur steps path = path @ circ_walk f cur m @ [w]
                 \<and> steps + m = ms))"
  using assms
proof (induction f w ro ms cur steps path rule: rollout_loop.induct)
  case (1 f w ro ms cur steps path)
  from "1.prems" have n: "0 < length f" by auto
  then have c: "(cur + 1) mod length f < length f" by simp
  have one: "circ_walk f cur (Suc 0) = [f ! cur]"
    using "1.prems"(1) by (simp add: circ_walk_def)
  show ?case
  proof (cases "ro \<le> steps + 1 \<and> f ! cur = w")
    case True
    then have "rollout_loop f w ro ms cur steps path = path @ circ_walk f cur (Suc 0)"
      by (subst rollout_loop.simps) (simp add: one)
    with True "1.prems" one show ?thesis
      by (intro exI [of _ "Suc 0"]) simp
  next
    case nw: False
    show ?thesis
    proof (cases "ms \<le> steps + 1")
      case True
      with nw have "rollout_loop f w ro ms cur steps path = path @ circ_walk f cur (Suc 0) @ [w]"
        by (subst rollout_loop.simps) (auto simp: one)
      with True "1.prems" show ?thesis
        by (intro exI [of _ "Suc 0"]) simp
    next
      case False
      then have st: "steps + 1 < ms" by simp
      from "1.IH" [OF nw False c "1.prems"(2) st]
      obtain m where m: "1 \<le> m" "ro \<le> steps + 1 + m" "steps + 1 + m \<le> ms"
        and alt: "(rollout_loop f w ro ms ((cur + 1) mod length f) (steps + 1) (path @ [f ! cur])
                    = (path @ [f ! cur]) @ circ_walk f ((cur + 1) mod length f) m
                   \<and> last (circ_walk f ((cur + 1) mod length f) m) = w)
                \<or> (rollout_loop f w ro ms ((cur + 1) mod length f) (steps + 1) (path @ [f ! cur])
                    = (path @ [f ! cur]) @ circ_walk f ((cur + 1) mod length f) m @ [w]
                   \<and> steps + 1 + m = ms)"
        by blast
      have unf: "rollout_loop f w ro ms cur steps path
               = rollout_loop f w ro ms ((cur + 1) mod length f) (steps + 1) (path @ [f ! cur])"
        using nw False by (subst rollout_loop.simps) auto
      have sw: "circ_walk f cur (Suc m) = f ! cur # circ_walk f ((cur + 1) mod length f) m"
        by (rule circ_walk_Suc [OF "1.prems"(1)])
      have ne: "circ_walk f ((cur + 1) mod length f) m \<noteq> []"
        using m(1) by (simp add: circ_walk_def)
      from alt show ?thesis
      proof
        assume a: "rollout_loop f w ro ms ((cur + 1) mod length f) (steps + 1) (path @ [f ! cur])
                    = (path @ [f ! cur]) @ circ_walk f ((cur + 1) mod length f) m
                   \<and> last (circ_walk f ((cur + 1) mod length f) m) = w"
        with unf sw ne m show ?thesis
          by (intro exI [of _ "Suc m"]) simp
      next
        assume a: "rollout_loop f w ro ms ((cur + 1) mod length f) (steps + 1) (path @ [f ! cur])
                    = (path @ [f ! cur]) @ circ_walk f ((cur + 1) mod length f) m @ [w]
                   \<and> steps + 1 + m = ms"
        with unf sw m show ?thesis
          by (intro exI [of _ "Suc m"]) simp
      qed
    qed
  qed
qed


lemma DrawNextOne_nonempty:
  assumes "g_entries s \<noteq> []"
  shows "DrawNextOne r1 r2 s =
     (let filtered = draw_pool (g_entries s) (g_roundExcludedIdx s);
          winnerIdx = filtered ! uniform_int_distribution 0 (length filtered - 1) r1;
          rollout = rollout_steps (length filtered) (CFG_SPIN_ROLLOUT_FACTOR s)
      in s\<lparr>g_animPath := rollout_loop filtered winnerIdx rollout (rollout + length filtered * 2)
                             (uniform_int_distribution 0 (length filtered - 1) r2) 0
                             (concat (replicate (nat (CFG_SPIN_ROUNDS s)) filtered)),
           g_animWinnerIdx := winnerIdx,
           timers := insert TIMER_ANIM (timers s)\<rparr>)"
  using assms EligibleIndices_nonempty [OF assms]
  by (simp add: DrawNextOne_def draw_pool_def rollout_steps_def Let_def SetTimer_def)

lemma run_anim_closed:
  "run_anim s = s\<lparr>g_animPath := [],
                  g_scanHighlightRow := Some (g_animWinnerIdx s),
                  g_winnerRows := insert (g_animWinnerIdx s) (g_winnerRows s),
                  g_roundSelectedIdx := insert (g_animWinnerIdx s) (g_roundSelectedIdx s),
                  g_roundExcludedIdx := insert (g_animWinnerIdx s) (g_roundExcludedIdx s),
                  g_blinkState := CFG_BLINK_TIMES s * 2,
                  g_blinkIid := g_animWinnerIdx s,
                  timers := insert TIMER_BLINK (timers s - {TIMER_ANIM})\<rparr>"
proof (induction s rule: run_anim.induct)
  case (1 s)
  show ?case
  proof (cases "g_animPath s = []")
    case True
    then show ?thesis
      by (subst run_anim.simps)
         (simp add: OnAnimTimer_def Let_def KillTimer_def SetTimer_def StartBlink_def
            SetScanHighlight_def ClearScanHighlight_def SetWinnerHighlight_def)
  next
    case False
    from "1.IH" [OF False] False show ?thesis
      by (subst run_anim.simps)
         (simp add: OnAnimTimer_def Let_def SetTimer_def SetScanHighlight_def
            ClearScanHighlight_def)
  qed
qed

lemma run_blink_closed:
  "run_blink s = s\<lparr>g_blinkState := min (g_blinkState s) 0,
                   g_scanHighlightRow := None,
                   g_winnerRows := insert (g_blinkIid s) (g_winnerRows s),
                   timers := insert TIMER_NEXT (timers s - {TIMER_BLINK})\<rparr>"
proof (induction s rule: run_blink.induct)
  case (1 s)
  show ?case
  proof (cases "g_blinkState s \<le> 0")
    case True
    then show ?thesis
      by (subst run_blink.simps)
         (simp add: OnBlinkTimer_def Let_def KillTimer_def SetTimer_def
            ClearScanHighlight_def SetWinnerHighlight_def min_def)
  next
    case False
    from "1.IH" [OF False] False show ?thesis
      by (subst run_blink.simps)
         (auto simp: OnBlinkTimer_def Let_def SetWinnerHighlight_def ClearWinnerHighlight_def
            min_def insert_absorb)
  qed
qed


lemma settle_closed:
  "settle wc s =
     ApplyWinnerAndContinue wc
       (s\<lparr>g_animPath := [],
          g_scanHighlightRow := None,
          g_winnerRows := insert (g_animWinnerIdx s) (g_winnerRows s),
          g_roundSelectedIdx := insert (g_animWinnerIdx s) (g_roundSelectedIdx s),
          g_roundExcludedIdx := insert (g_animWinnerIdx s) (g_roundExcludedIdx s),
          g_blinkState := min (CFG_BLINK_TIMES s * 2) 0,
          g_blinkIid := g_animWinnerIdx s,
          timers := timers s - {TIMER_ANIM, TIMER_BLINK, TIMER_NEXT}\<rparr>)"
proof -
  have "insert TIMER_NEXT (insert TIMER_BLINK (timers s - {TIMER_ANIM}) - {TIMER_BLINK}) - {TIMER_NEXT}
      = timers s - {TIMER_ANIM, TIMER_BLINK, TIMER_NEXT}"
    by auto
  then show ?thesis
    by (cases s) (simp add: settle_def OnNextTimer_def KillTimer_def run_anim_closed run_blink_closed)
qed

lemma length_increment_counter: "length (increment_counter w es) = length es"
  by (simp add: increment_counter_def)

lemma name_increment_counter: "map name (increment_counter w es) = map name es"
  by (cases "w < length es")
     (simp_all add: increment_counter_def map_update list_update_same_conv list_update_beyond not_less)

lemma map_name_NormalizeCounters: "map name (NormalizeCounters es) = map name es"
  by (simp add: NormalizeCounters_def Let_def comp_def)

lemma g_entries_FinishRound: "g_entries (FinishRound wc s) = g_entries s"
  by (simp add: FinishRound_def Let_def SetStatus_def MessageBoxW_def split: prod.splits)

lemma g_entries_ApplyWinnerAndContinue:
  "g_entries (ApplyWinnerAndContinue wc s) =
     NormalizeCounters (increment_counter (g_animWinnerIdx s) (g_entries s))"
  by (simp add: ApplyWinnerAndContinue_def Let_def SetStatus_def SetTimer_def g_entries_FinishRound)

lemma g_entries_settle:
  "g_entries (settle wc s) =
     NormalizeCounters (increment_counter (g_animWinnerIdx s) (g_entries s))"
  by (simp add: settle_closed g_entries_ApplyWinnerAndContinue)


lemma commit_nonempty:
  "es \<noteq> [] \<Longrightarrow> NormalizeCounters (increment_counter w es) \<noteq> []"
  using length_NormalizeCounters [of "increment_counter w es"]
  by (auto simp: length_increment_counter simp del: length_NormalizeCounters)

lemma map_name_commit:
  "map name (NormalizeCounters (increment_counter w es)) = map name es"
  by (simp add: map_name_NormalizeCounters name_increment_counter)

lemma settle_continue:
  assumes "Suc (g_drawnCount s) < g_toDrawTotal s"
  shows "settle wc s =
     s\<lparr>g_entries := NormalizeCounters (increment_counter (g_animWinnerIdx s) (g_entries s)),
       g_drawnCount := Suc (g_drawnCount s),
       g_roundSelectedIdx := insert (g_animWinnerIdx s) (g_roundSelectedIdx s),
       g_roundExcludedIdx := insert (g_animWinnerIdx s) (g_roundExcludedIdx s),
       g_animPath := [],
       g_blinkState := min (CFG_BLINK_TIMES s * 2) 0,
       g_blinkIid := g_animWinnerIdx s,
       g_scanHighlightRow := None,
       g_winnerRows := insert (g_animWinnerIdx s) (g_winnerRows s),
       timers := insert TIMER_FINISH (timers s - {TIMER_ANIM, TIMER_BLINK, TIMER_NEXT}),
       status := L ''Gezogen: '' @ to_wstring (Suc (g_drawnCount s)) @ L ''/''
                 @ to_wstring (g_toDrawTotal s) @ L '' '' @ [0x2013] @ L '' Gewinner: ''
                 @ name (NormalizeCounters (increment_counter (g_animWinnerIdx s) (g_entries s))
                         ! g_animWinnerIdx s)\<rparr>"
  using assms
  by (cases s) (simp add: settle_closed ApplyWinnerAndContinue_def Let_def SetStatus_def SetTimer_def)

lemma settle_finish:
  assumes "\<not> Suc (g_drawnCount s) < g_toDrawTotal s"
  shows "settle wc s = FinishRound wc
    (s\<lparr>g_entries := NormalizeCounters (increment_counter (g_animWinnerIdx s) (g_entries s)),
       g_drawnCount := Suc (g_drawnCount s),
       g_roundSelectedIdx := insert (g_animWinnerIdx s) (g_roundSelectedIdx s),
       g_roundExcludedIdx := insert (g_animWinnerIdx s) (g_roundExcludedIdx s),
       g_animPath := [],
       g_blinkState := min (CFG_BLINK_TIMES s * 2) 0,
       g_blinkIid := g_animWinnerIdx s,
       g_scanHighlightRow := None,
       g_winnerRows := insert (g_animWinnerIdx s) (g_winnerRows s),
       timers := timers s - {TIMER_ANIM, TIMER_BLINK, TIMER_NEXT},
       status := L ''Gezogen: '' @ to_wstring (Suc (g_drawnCount s)) @ L ''/''
                 @ to_wstring (g_toDrawTotal s) @ L '' '' @ [0x2013] @ L '' Gewinner: ''
                 @ name (NormalizeCounters (increment_counter (g_animWinnerIdx s) (g_entries s))
                         ! g_animWinnerIdx s)\<rparr>)"
  using assms
  by (cases s) (simp add: settle_closed ApplyWinnerAndContinue_def Let_def SetStatus_def SetTimer_def)

lemma FinishRound_fields:
  "timers (FinishRound wc s) = timers s"
  "g_animRunning (FinishRound wc s) = False"
  "status (FinishRound wc s) =
     fst (summary_loop (g_entries s) (sorted_list_of_set (g_roundSelectedIdx s))
           (L ''Runde beendet '' @ [0x2013] @ L '' Gewinner: '', True))"
  by (simp_all add: FinishRound_def Let_def SetStatus_def MessageBoxW_def split: prod.splits)

lemma next_draw:
  fixes wc :: "wstring \<Rightarrow> string" and r1 r2 :: nat and s :: state
  assumes "g_entries s \<noteq> []" "timers s = {TIMER_ANIM}"
    "Suc (g_drawnCount s) < g_toDrawTotal s"
  defines "s' \<equiv> OnFinishTimer r1 r2 (settle wc s)"
  shows "timers (settle wc s) = {TIMER_FINISH}"
    and "g_entries s' = NormalizeCounters (increment_counter (g_animWinnerIdx s) (g_entries s))"
    and "timers s' = {TIMER_ANIM}"
    and "g_roundExcludedIdx s' = insert (g_animWinnerIdx s) (g_roundExcludedIdx s)"
    and "g_roundSelectedIdx s' = insert (g_animWinnerIdx s) (g_roundSelectedIdx s)"
    and "g_drawnCount s' = Suc (g_drawnCount s)"
    and "g_toDrawTotal s' = g_toDrawTotal s"
    and "g_animWinnerIdx s' \<in> set (draw_pool (g_entries s') (g_roundExcludedIdx s'))"
proof -
  let ?es = "NormalizeCounters (increment_counter (g_animWinnerIdx s) (g_entries s))"
  have ne: "?es \<noteq> []" by (rule commit_nonempty [OF assms(1)])
  show "timers (settle wc s) = {TIMER_FINISH}"
    using assms(2) by (simp add: settle_continue [OF assms(3)])
  have k: "g_entries (KillTimer TIMER_FINISH (settle wc s)) = ?es"
    by (simp add: KillTimer_def g_entries_settle)
  then have kne: "g_entries (KillTimer TIMER_FINISH (settle wc s)) \<noteq> []"
    using ne by simp
  have s': "s' = DrawNextOne r1 r2 (KillTimer TIMER_FINISH (settle wc s))"
    by (simp add: s'_def OnFinishTimer_def)
  note d = DrawNextOne_nonempty [OF kne, of r1 r2, folded s']
  show e: "g_entries s' = ?es"
    by (simp add: d Let_def k)
  show "timers s' = {TIMER_ANIM}"
    using assms(2) by (simp add: d Let_def KillTimer_def settle_continue [OF assms(3)])
  show x: "g_roundExcludedIdx s' = insert (g_animWinnerIdx s) (g_roundExcludedIdx s)"
    by (simp add: d Let_def KillTimer_def settle_continue [OF assms(3)])
  show "g_roundSelectedIdx s' = insert (g_animWinnerIdx s) (g_roundSelectedIdx s)"
    by (simp add: d Let_def KillTimer_def settle_continue [OF assms(3)])
  show "g_drawnCount s' = Suc (g_drawnCount s)"
    by (simp add: d Let_def KillTimer_def settle_continue [OF assms(3)])
  show "g_toDrawTotal s' = g_toDrawTotal s"
    by (simp add: d Let_def KillTimer_def settle_continue [OF assms(3)])
  have p: "draw_pool ?es (insert (g_animWinnerIdx s) (g_roundExcludedIdx s)) \<noteq> []"
    by (rule draw_pool_nonempty [OF ne])
  have "g_animWinnerIdx s' =
      draw_pool ?es (insert (g_animWinnerIdx s) (g_roundExcludedIdx s))
        ! uniform_int_distribution 0
            (length (draw_pool ?es (insert (g_animWinnerIdx s) (g_roundExcludedIdx s))) - 1) r1"
    by (simp add: d Let_def KillTimer_def settle_continue [OF assms(3)])
  moreover have "uniform_int_distribution 0
            (length (draw_pool ?es (insert (g_animWinnerIdx s) (g_roundExcludedIdx s))) - 1) r1
        < length (draw_pool ?es (insert (g_animWinnerIdx s) (g_roundExcludedIdx s)))"
    using p by (intro uniform_in_range) simp
  ultimately show "g_animWinnerIdx s' \<in> set (draw_pool (g_entries s') (g_roundExcludedIdx s'))"
    by (simp add: e x)
qed


lemma timers_settle_finish:
  assumes "timers s = {TIMER_ANIM}" "\<not> Suc (g_drawnCount s) < g_toDrawTotal s"
  shows "timers (settle wc s) = {}"
  using assms(1) by (simp add: settle_finish [OF assms(2)] FinishRound_fields)

lemma batch_trace_last:
  assumes "timers s = {TIMER_ANIM}" "\<not> Suc (g_drawnCount s) < g_toDrawTotal s"
  shows "batch_trace wc rs s = [s]" "run_batch wc rs s = settle wc s"
  using assms timers_settle_finish [OF assms, of wc]
  by (simp_all add: batch_trace.simps [of wc rs s] run_batch.simps [of wc rs s] Let_def)

lemma batch_trace_Nil:
  assumes "timers s = {TIMER_ANIM}"
  shows "batch_trace wc [] s = [s]" "run_batch wc [] s = settle wc s"
  using assms
  by (simp_all add: batch_trace.simps [of wc "[]" s] run_batch.simps [of wc "[]" s] Let_def)

lemma batch_trace_Cons:
  assumes "g_entries s \<noteq> []" "timers s = {TIMER_ANIM}" "Suc (g_drawnCount s) < g_toDrawTotal s"
  shows "batch_trace wc ((r1, r2) # rs) s = s # batch_trace wc rs (OnFinishTimer r1 r2 (settle wc s))"
    and "run_batch wc ((r1, r2) # rs) s = run_batch wc rs (OnFinishTimer r1 r2 (settle wc s))"
  using assms(2) next_draw(1) [OF assms]
  by (simp_all add: batch_trace.simps [of wc "(r1, r2) # rs" s]
        run_batch.simps [of wc "(r1, r2) # rs" s] Let_def)

lemma batch_trace_props:
  assumes "g_entries s \<noteq> []" "timers s = {TIMER_ANIM}" "g_drawnCount s < g_toDrawTotal s"
    "g_animWinnerIdx s \<in> set (draw_pool (g_entries s) (g_roundExcludedIdx s))"
  shows "length (batch_trace wc rs s) = min (g_toDrawTotal s - g_drawnCount s) (Suc (length rs))
    \<and> (\<forall>k<length (batch_trace wc rs s).
          g_roundExcludedIdx (batch_trace wc rs s ! k)
            = g_roundExcludedIdx s \<union> set (take k (map g_animWinnerIdx (batch_trace wc rs s)))
        \<and> g_animWinnerIdx (batch_trace wc rs s ! k)
            \<in> set (draw_pool (g_entries (batch_trace wc rs s ! k))
                               (g_roundExcludedIdx (batch_trace wc rs s ! k)))
        \<and> map name (g_entries (batch_trace wc rs s ! k)) = map name (g_entries s))"
  using assms
proof (induction rs arbitrary: s)
  case Nil
  then show ?case by (simp add: batch_trace_Nil)
next
  case (Cons r rs)
  obtain r1 r2 where r: "r = (r1, r2)" by (cases r)
  show ?case
  proof (cases "Suc (g_drawnCount s) < g_toDrawTotal s")
    case False
    with Cons.prems show ?thesis
      by (simp add: batch_trace_last [OF Cons.prems(2) False])
  next
    case True
    let ?s' = "OnFinishTimer r1 r2 (settle wc s)"
    let ?tr = "batch_trace wc rs ?s'"
    note nd = next_draw [OF Cons.prems(1,2) True]
    have ne: "g_entries ?s' \<noteq> []"
      using nd(2) commit_nonempty [OF Cons.prems(1)] by simp
    have dc: "g_drawnCount ?s' < g_toDrawTotal ?s'"
      using True by (simp add: nd(6,7))
    note ih = Cons.IH [OF ne nd(3) dc nd(8)]
    have unf: "batch_trace wc (r # rs) s = s # ?tr"
      by (simp add: r batch_trace_Cons [OF Cons.prems(1,2) True])
    have nm: "map name (g_entries ?s') = map name (g_entries s)"
      by (simp add: nd(2) map_name_commit)
    have len: "length (batch_trace wc (r # rs) s)
             = min (g_toDrawTotal s - g_drawnCount s) (Suc (length (r # rs)))"
      using ih True by (simp add: unf nd(6,7))
    have "g_roundExcludedIdx ((s # ?tr) ! k)
            = g_roundExcludedIdx s \<union> set (take k (map g_animWinnerIdx (s # ?tr)))
        \<and> g_animWinnerIdx ((s # ?tr) ! k)
            \<in> set (draw_pool (g_entries ((s # ?tr) ! k)) (g_roundExcludedIdx ((s # ?tr) ! k)))
        \<and> map name (g_entries ((s # ?tr) ! k)) = map name (g_entries s)"
      if "k < length (s # ?tr)" for k
    proof (cases k)
      case 0
      then show ?thesis using Cons.prems(4) by simp
    next
      case (Suc j)
      with that have j: "j < length ?tr" by simp
      from ih j have
        "g_roundExcludedIdx (?tr ! j)
            = g_roundExcludedIdx ?s' \<union> set (take j (map g_animWinnerIdx ?tr))"
        "g_animWinnerIdx (?tr ! j)
            \<in> set (draw_pool (g_entries (?tr ! j)) (g_roundExcludedIdx (?tr ! j)))"
        "map name (g_entries (?tr ! j)) = map name (g_entries ?s')"
        by blast+
      then show ?thesis
        by (simp add: Suc nd(4) nm)
    qed
    with len show ?thesis by (simp only: unf) blast
  qed
qed








lemma DrawNextOne_winner:
  assumes "g_entries s \<noteq> []"
  shows "g_animWinnerIdx (DrawNextOne r1 r2 s)
           \<in> set (draw_pool (g_entries s) (g_roundExcludedIdx s))"
    and "g_entries (DrawNextOne r1 r2 s) = g_entries s"
    and "g_roundExcludedIdx (DrawNextOne r1 r2 s) = g_roundExcludedIdx s"
    and "g_roundSelectedIdx (DrawNextOne r1 r2 s) = g_roundSelectedIdx s"
    and "timers (DrawNextOne r1 r2 s) = insert TIMER_ANIM (timers s)"
    and "g_drawnCount (DrawNextOne r1 r2 s) = g_drawnCount s"
    and "g_toDrawTotal (DrawNextOne r1 r2 s) = g_toDrawTotal s"
proof -
  have p: "draw_pool (g_entries s) (g_roundExcludedIdx s) \<noteq> []"
    by (rule draw_pool_nonempty [OF assms])
  then have "uniform_int_distribution 0
               (length (draw_pool (g_entries s) (g_roundExcludedIdx s)) - 1) r1
             < length (draw_pool (g_entries s) (g_roundExcludedIdx s))"
    by (intro uniform_in_range) simp
  then show "g_animWinnerIdx (DrawNextOne r1 r2 s)
           \<in> set (draw_pool (g_entries s) (g_roundExcludedIdx s))"
    by (simp add: DrawNextOne_nonempty [OF assms] Let_def)
  show "g_entries (DrawNextOne r1 r2 s) = g_entries s"
    and "g_roundExcludedIdx (DrawNextOne r1 r2 s) = g_roundExcludedIdx s"
    and "g_roundSelectedIdx (DrawNextOne r1 r2 s) = g_roundSelectedIdx s"
    and "timers (DrawNextOne r1 r2 s) = insert TIMER_ANIM (timers s)"
    and "g_drawnCount (DrawNextOne r1 r2 s) = g_drawnCount s"
    and "g_toDrawTotal (DrawNextOne r1 r2 s) = g_toDrawTotal s"
    by (simp_all add: DrawNextOne_nonempty [OF assms] Let_def)
qed

lemma DrawNextOne_eligible:
  assumes "g_entries s \<noteq> []"
  shows "g_animWinnerIdx (DrawNextOne r1 r2 s) \<in> set (EligibleIndices (g_entries s))"
  using DrawNextOne_winner(1) [OF assms, of r1 r2] set_draw_pool by blast

lemma increment_counter_nth:
  assumes "w < length es"
  shows "counter (increment_counter w es ! w) = counter (es ! w) + 1"
    and "name (increment_counter w es ! w) = name (es ! w)"
    and "i \<noteq> w \<Longrightarrow> increment_counter w es ! i = es ! i"
  using assms by (simp_all add: increment_counter_def)

lemma sint_add_one:
  fixes c :: "32 word"
  assumes "sint c < 2 ^ 31 - 1"
  shows "sint (c + 1) = sint c + 1"
proof -
  have "- (2 ^ 31) \<le> sint c" using sint_ge [of c] by simp
  with assms have "- (2 ^ 31) \<le> sint c + 1" "sint c + 1 < 2 ^ 31" by linarith+
  then show ?thesis
    by (simp add: sint_word_ariths signed_take_bit_int_eq_self)
qed

text \<open>
  C1. A single draw on a non-empty roster: \<open>DrawNextOne\<close> leaves the roster as it is and
  chooses a winner among \<open>EligibleIndices\<close> of it, whatever the random numbers; when
  the draw is committed (\<open>ApplyWinnerAndContinue\<close>, reached through scan, blink and
  \<open>TIMER_NEXT\<close>), the roster becomes \<open>NormalizeCounters\<close> of the roster in which the
  winner's counter, and no other entry, has been incremented by exactly 1.
\<close>

theorem committed_draw_increments_one_eligible:
  assumes "g_entries s \<noteq> []"
  shows "g_entries (DrawNextOne r1 r2 s) = g_entries s
    \<and> g_animWinnerIdx (DrawNextOne r1 r2 s) \<in> set (EligibleIndices (g_entries s))
    \<and> g_animWinnerIdx (DrawNextOne r1 r2 s) < length (g_entries s)
    \<and> sint (counter (g_entries s ! g_animWinnerIdx (DrawNextOne r1 r2 s)))
        = Min (sint ` counter ` set (g_entries s))
    \<and> g_entries (settle wc (DrawNextOne r1 r2 s))
        = NormalizeCounters (increment_counter (g_animWinnerIdx (DrawNextOne r1 r2 s)) (g_entries s))
    \<and> length (increment_counter (g_animWinnerIdx (DrawNextOne r1 r2 s)) (g_entries s))
        = length (g_entries s)
    \<and> counter (increment_counter (g_animWinnerIdx (DrawNextOne r1 r2 s)) (g_entries s)
                 ! g_animWinnerIdx (DrawNextOne r1 r2 s))
        = counter (g_entries s ! g_animWinnerIdx (DrawNextOne r1 r2 s)) + 1
    \<and> (sint (counter (g_entries s ! g_animWinnerIdx (DrawNextOne r1 r2 s))) < 2 ^ 31 - 1 \<longrightarrow>
         sint (counter (increment_counter (g_animWinnerIdx (DrawNextOne r1 r2 s)) (g_entries s)
                 ! g_animWinnerIdx (DrawNextOne r1 r2 s)))
         = sint (counter (g_entries s ! g_animWinnerIdx (DrawNextOne r1 r2 s))) + 1)
    \<and> (\<forall>i. i \<noteq> g_animWinnerIdx (DrawNextOne r1 r2 s) \<longrightarrow>
         increment_counter (g_animWinnerIdx (DrawNextOne r1 r2 s)) (g_entries s) ! i
         = g_entries s ! i)"
proof -
  let ?w = "g_animWinnerIdx (DrawNextOne r1 r2 s)"
  have el: "?w \<in> set (EligibleIndices (g_entries s))"
    by (rule DrawNextOne_eligible [OF assms])
  then have lt: "?w < length (g_entries s)"
    and mn: "sint (counter (g_entries s ! ?w)) = Min (sint ` counter ` set (g_entries s))"
    by (simp_all add: set_EligibleIndices)
  have "g_entries (settle wc (DrawNextOne r1 r2 s))
        = NormalizeCounters (increment_counter ?w (g_entries s))"
    by (simp add: g_entries_settle DrawNextOne_winner(2) [OF assms])
  with el lt mn show ?thesis
    by (simp add: DrawNextOne_winner(2) [OF assms] length_increment_counter
          increment_counter_nth sint_add_one)
qed

theorem committed_draw_increments_one_eligible_witness:
  "g_entries scenario_state \<noteq> []
   \<and> g_animWinnerIdx (DrawNextOne 1 0 scenario_state) = 1
   \<and> EligibleIndices (g_entries scenario_state) = [0, 1]
   \<and> increment_counter 1 (g_entries scenario_state)
       = [\<lparr>name = L ''Alice'', counter = 0\<rparr>, \<lparr>name = L ''Bob'', counter = 1\<rparr>,
          \<lparr>name = L ''Charlie'', counter = 1\<rparr>]
   \<and> g_entries (settle ascii_wc2mb (DrawNextOne 1 0 scenario_state))
       = [\<lparr>name = L ''Alice'', counter = 0\<rparr>, \<lparr>name = L ''Bob'', counter = 1\<rparr>,
          \<lparr>name = L ''Charlie'', counter = 1\<rparr>]"
proof -
  have ne: "g_entries scenario_state \<noteq> []" by code_simp
  have w: "g_animWinnerIdx (DrawNextOne 1 0 scenario_state) = 1" by code_simp
  have e: "EligibleIndices (g_entries scenario_state) = [0, 1]" by code_simp
  have i: "increment_counter 1 (g_entries scenario_state)
       = [\<lparr>name = L ''Alice'', counter = 0\<rparr>, \<lparr>name = L ''Bob'', counter = 1\<rparr>,
          \<lparr>name = L ''Charlie'', counter = 1\<rparr>]" by code_simp
  have n: "NormalizeCounters [\<lparr>name = L ''Alice'', counter = 0\<rparr>, \<lparr>name = L ''Bob'', counter = 1\<rparr>,
          \<lparr>name = L ''Charlie'', counter = 1\<rparr>]
       = [\<lparr>name = L ''Alice'', counter = 0\<rparr>, \<lparr>name = L ''Bob'', counter = 1\<rparr>,
          \<lparr>name = L ''Charlie'', counter = 1\<rparr>]" by code_simp
  from committed_draw_increments_one_eligible [OF ne, of 1 0 ascii_wc2mb]
  have "g_entries (settle ascii_wc2mb (DrawNextOne 1 0 scenario_state))
        = NormalizeCounters (increment_counter (g_animWinnerIdx (DrawNextOne 1 0 scenario_state))
            (g_entries scenario_state))"
    by blast
  with ne w e i n show ?thesis by simp
qed

text \<open>
  C10. For every non-empty roster, the winner chosen by \<open>DrawNextOne\<close> and every index
  it puts on the animation path are below the size of the roster; scanning, blinking and
  committing keep that size, and a reload is refused while a batch is in flight, so the
  increment of the commit and the highlight of every scanned row stay in range.
\<close>

theorem draw_indices_in_range:
  assumes "g_entries s \<noteq> []"
  shows "g_animWinnerIdx (DrawNextOne r1 r2 s) < length (g_entries (DrawNextOne r1 r2 s))
    \<and> (\<forall>i\<in>set (g_animPath (DrawNextOne r1 r2 s)). i < length (g_entries (DrawNextOne r1 r2 s)))
    \<and> g_entries (run_blink (run_anim (DrawNextOne r1 r2 s))) = g_entries (DrawNextOne r1 r2 s)
    \<and> g_animWinnerIdx (run_blink (run_anim (DrawNextOne r1 r2 s)))
        = g_animWinnerIdx (DrawNextOne r1 r2 s)
    \<and> length (g_entries (settle wc (DrawNextOne r1 r2 s))) = length (g_entries s)
    \<and> (g_animRunning s \<longrightarrow> g_entries (OnReloadExcel mb ifs fp s) = g_entries s)"
proof -
  let ?pool = "draw_pool (g_entries s) (g_roundExcludedIdx s)"
  let ?w = "g_animWinnerIdx (DrawNextOne r1 r2 s)"
  have pe: "set ?pool \<subseteq> {i. i < length (g_entries s)}"
    using set_draw_pool [of "g_entries s" "g_roundExcludedIdx s"] EligibleIndices_less by blast
  have wp: "?w \<in> set ?pool" by (rule DrawNextOne_winner(1) [OF assms])
  have p: "?pool \<noteq> []" by (rule draw_pool_nonempty [OF assms])
  then have cur: "uniform_int_distribution 0 (length ?pool - 1) r2 < length ?pool"
    by (intro uniform_in_range) simp
  have "set (g_animPath (DrawNextOne r1 r2 s)) \<subseteq> set ?pool"
    using rollout_loop_set [OF cur, of "?pool ! uniform_int_distribution 0 (length ?pool - 1) r1"
            "rollout_steps (length ?pool) (CFG_SPIN_ROLLOUT_FACTOR s)"
            "rollout_steps (length ?pool) (CFG_SPIN_ROLLOUT_FACTOR s) + length ?pool * 2" 0
            "concat (replicate (nat (CFG_SPIN_ROUNDS s)) ?pool)"] wp
    by (auto simp: DrawNextOne_nonempty [OF assms] Let_def)
  with pe wp show ?thesis
    by (auto simp: DrawNextOne_winner(2) [OF assms] run_anim_closed run_blink_closed
          g_entries_settle length_increment_counter length_NormalizeCounters
          OnReloadExcel_def MessageBoxW_def)
qed

theorem draw_indices_in_range_witness:
  "g_entries scenario_state \<noteq> []
   \<and> g_animWinnerIdx (DrawNextOne 1 0 scenario_state) = 1
   \<and> g_animPath (DrawNextOne 1 0 scenario_state) = [0, 1, 0, 1, 0, 1, 0, 1, 0, 1]
   \<and> length (g_entries (DrawNextOne 1 0 scenario_state)) = 3
   \<and> g_animWinnerIdx (DrawNextOne 1 0 scenario_state) < length (g_entries (DrawNextOne 1 0 scenario_state))"
proof -
  have ne: "g_entries scenario_state \<noteq> []" by code_simp
  have w: "g_animWinnerIdx (DrawNextOne 1 0 scenario_state) = 1" by code_simp
  have p: "g_animPath (DrawNextOne 1 0 scenario_state) = [0, 1, 0, 1, 0, 1, 0, 1, 0, 1]"
    by code_simp
  have l: "length (g_entries (DrawNextOne 1 0 scenario_state)) = 3" by code_simp
  from draw_indices_in_range [OF ne, of 1 0] ne w p l show ?thesis by simp
qed






lemma OnDrawClicked_start:
  assumes "g_entries s0 \<noteq> []" "\<not> g_animRunning s0" "1 \<le> n"
  shows "OnDrawClicked n r1 r2 s0 =
     DrawNextOne r1 r2
       (s0\<lparr>g_toDrawTotal := min (nat n) (length (g_entries s0)), g_drawnCount := 0,
            g_roundSelectedIdx := {}, g_roundExcludedIdx := {}, g_animRunning := True,
            status := L ''Ziehe '' @ to_wstring (min (nat n) (length (g_entries s0)))
                      @ L '' Person(en) '' @ [0x2026]\<rparr>)"
  using assms by (simp add: OnDrawClicked_def Let_def SetStatus_def)

lemma OnDrawClicked_fields:
  assumes "g_entries s0 \<noteq> []" "\<not> g_animRunning s0" "1 \<le> n" "timers s0 = {}"
  shows "g_entries (OnDrawClicked n r1 r2 s0) = g_entries s0"
    and "timers (OnDrawClicked n r1 r2 s0) = {TIMER_ANIM}"
    and "g_drawnCount (OnDrawClicked n r1 r2 s0) = 0"
    and "g_toDrawTotal (OnDrawClicked n r1 r2 s0) = min (nat n) (length (g_entries s0))"
    and "g_roundExcludedIdx (OnDrawClicked n r1 r2 s0) = {}"
    and "g_roundSelectedIdx (OnDrawClicked n r1 r2 s0) = {}"
    and "g_animWinnerIdx (OnDrawClicked n r1 r2 s0)
           \<in> set (draw_pool (g_entries (OnDrawClicked n r1 r2 s0))
                              (g_roundExcludedIdx (OnDrawClicked n r1 r2 s0)))"
proof -
  let ?s = "s0\<lparr>g_toDrawTotal := min (nat n) (length (g_entries s0)), g_drawnCount := 0,
            g_roundSelectedIdx := {}, g_roundExcludedIdx := {}, g_animRunning := True,
            status := L ''Ziehe '' @ to_wstring (min (nat n) (length (g_entries s0)))
                      @ L '' Person(en) '' @ [0x2026]\<rparr>"
  have e: "OnDrawClicked n r1 r2 s0 = DrawNextOne r1 r2 ?s"
    by (rule OnDrawClicked_start [OF assms(1-3)])
  have ne: "g_entries ?s \<noteq> []" using assms(1) by simp
  note f = DrawNextOne_winner [OF ne, of r1 r2, folded e]
  show "g_entries (OnDrawClicked n r1 r2 s0) = g_entries s0" using f(2) by simp
  show "timers (OnDrawClicked n r1 r2 s0) = {TIMER_ANIM}" using f(5) assms(4) by simp
  show "g_drawnCount (OnDrawClicked n r1 r2 s0) = 0" using f(6) by simp
  show "g_toDrawTotal (OnDrawClicked n r1 r2 s0) = min (nat n) (length (g_entries s0))"
    using f(7) by simp
  show "g_roundExcludedIdx (OnDrawClicked n r1 r2 s0) = {}" using f(3) by simp
  show "g_roundSelectedIdx (OnDrawClicked n r1 r2 s0) = {}" using f(4) by simp
  show "g_animWinnerIdx (OnDrawClicked n r1 r2 s0)
           \<in> set (draw_pool (g_entries (OnDrawClicked n r1 r2 s0))
                              (g_roundExcludedIdx (OnDrawClicked n r1 r2 s0)))"
    using f(1) f(2) f(3) by simp
qed

text \<open>
  C4. A batch started by \<open>OnDrawClicked\<close> on a non-empty roster makes
  \<open>min(n, roster size)\<close> draws (given the random numbers for them). At the \<open>k\<close>-th
  draw \<open>g_roundExcludedIdx\<close> is the set of the winners drawn before in the batch,
  \<open>DrawNextOne\<close> draws from the eligible indices outside that set, or from all eligible
  indices when none is outside; so a winner that was drawn before in the batch is drawn
  again only when every index eligible at that draw has been drawn before in the batch.
\<close>

theorem batch_repeat_only_after_exhaustion:
  assumes "g_entries s0 \<noteq> []" "\<not> g_animRunning s0" "1 \<le> n" "timers s0 = {}"
  shows "length (batch_trace wc rs (OnDrawClicked n r1 r2 s0))
           = min (min (nat n) (length (g_entries s0))) (Suc (length rs))
    \<and> (\<forall>k<length (batch_trace wc rs (OnDrawClicked n r1 r2 s0)).
          g_roundExcludedIdx (batch_trace wc rs (OnDrawClicked n r1 r2 s0) ! k)
            = set (take k (map g_animWinnerIdx (batch_trace wc rs (OnDrawClicked n r1 r2 s0))))
        \<and> g_animWinnerIdx (batch_trace wc rs (OnDrawClicked n r1 r2 s0) ! k)
            \<in> set (draw_pool (g_entries (batch_trace wc rs (OnDrawClicked n r1 r2 s0) ! k))
                     (g_roundExcludedIdx (batch_trace wc rs (OnDrawClicked n r1 r2 s0) ! k)))
        \<and> draw_pool (g_entries (batch_trace wc rs (OnDrawClicked n r1 r2 s0) ! k))
                     (g_roundExcludedIdx (batch_trace wc rs (OnDrawClicked n r1 r2 s0) ! k))
            = (if set (EligibleIndices (g_entries (batch_trace wc rs (OnDrawClicked n r1 r2 s0) ! k)))
                    \<subseteq> g_roundExcludedIdx (batch_trace wc rs (OnDrawClicked n r1 r2 s0) ! k)
               then EligibleIndices (g_entries (batch_trace wc rs (OnDrawClicked n r1 r2 s0) ! k))
               else filter (\<lambda>i. i \<notin> g_roundExcludedIdx (batch_trace wc rs (OnDrawClicked n r1 r2 s0) ! k))
                      (EligibleIndices (g_entries (batch_trace wc rs (OnDrawClicked n r1 r2 s0) ! k))))
        \<and> (g_animWinnerIdx (batch_trace wc rs (OnDrawClicked n r1 r2 s0) ! k)
              \<in> set (take k (map g_animWinnerIdx (batch_trace wc rs (OnDrawClicked n r1 r2 s0))))
            \<longrightarrow> set (EligibleIndices (g_entries (batch_trace wc rs (OnDrawClicked n r1 r2 s0) ! k)))
                  \<subseteq> set (take k (map g_animWinnerIdx (batch_trace wc rs (OnDrawClicked n r1 r2 s0))))))"
proof -
  let ?s = "OnDrawClicked n r1 r2 s0"
  let ?tr = "batch_trace wc rs ?s"
  note f = OnDrawClicked_fields [OF assms, of r1 r2]
  have ne: "g_entries ?s \<noteq> []" using f(1) assms(1) by simp
  have dc: "g_drawnCount ?s < g_toDrawTotal ?s"
    using assms(1,3) by (simp add: f(3,4))
  note bt = batch_trace_props [OF ne f(2) dc f(7), of wc rs]
  have len: "length ?tr = min (min (nat n) (length (g_entries s0))) (Suc (length rs))"
    using bt by (simp add: f(3,4))
  have "g_roundExcludedIdx (?tr ! k) = set (take k (map g_animWinnerIdx ?tr))
        \<and> g_animWinnerIdx (?tr ! k)
            \<in> set (draw_pool (g_entries (?tr ! k)) (g_roundExcludedIdx (?tr ! k)))
        \<and> draw_pool (g_entries (?tr ! k)) (g_roundExcludedIdx (?tr ! k))
            = (if set (EligibleIndices (g_entries (?tr ! k))) \<subseteq> g_roundExcludedIdx (?tr ! k)
               then EligibleIndices (g_entries (?tr ! k))
               else filter (\<lambda>i. i \<notin> g_roundExcludedIdx (?tr ! k))
                      (EligibleIndices (g_entries (?tr ! k))))
        \<and> (g_animWinnerIdx (?tr ! k) \<in> set (take k (map g_animWinnerIdx ?tr))
            \<longrightarrow> set (EligibleIndices (g_entries (?tr ! k)))
                  \<subseteq> set (take k (map g_animWinnerIdx ?tr)))"
    if k: "k < length ?tr" for k
  proof -
    note btk = bt [THEN conjunct2, rule_format, OF k]
    have x: "g_roundExcludedIdx (?tr ! k) = set (take k (map g_animWinnerIdx ?tr))"
      using btk [THEN conjunct1] by (simp add: f(5))
    have w: "g_animWinnerIdx (?tr ! k)
            \<in> set (draw_pool (g_entries (?tr ! k)) (g_roundExcludedIdx (?tr ! k)))"
      using btk [THEN conjunct2, THEN conjunct1] .
    from draw_pool_repeat [OF w] x
    have "g_animWinnerIdx (?tr ! k) \<in> set (take k (map g_animWinnerIdx ?tr))
            \<longrightarrow> set (EligibleIndices (g_entries (?tr ! k)))
                  \<subseteq> set (take k (map g_animWinnerIdx ?tr))"
      by simp
    with x w draw_pool_fallback [of "g_entries (?tr ! k)" "g_roundExcludedIdx (?tr ! k)"]
    show ?thesis by simp
  qed
  with len show ?thesis by blast
qed


theorem batch_repeat_only_after_exhaustion_witness:
  "g_entries (initial_state\<lparr>g_entries := [\<lparr>name = L ''Alice'', counter = 0\<rparr>,
                                            \<lparr>name = L ''Bob'', counter = 2\<rparr>]\<rparr>) \<noteq> []
   \<and> \<not> g_animRunning (initial_state\<lparr>g_entries := [\<lparr>name = L ''Alice'', counter = 0\<rparr>,
                                                      \<lparr>name = L ''Bob'', counter = 2\<rparr>]\<rparr>)
   \<and> (1 :: int) \<le> 2
   \<and> timers (initial_state\<lparr>g_entries := [\<lparr>name = L ''Alice'', counter = 0\<rparr>,
                                          \<lparr>name = L ''Bob'', counter = 2\<rparr>]\<rparr>) = {}
   \<and> map g_animWinnerIdx
        (batch_trace ascii_wc2mb [(0, 0)]
           (OnDrawClicked 2 0 0 (initial_state\<lparr>g_entries := [\<lparr>name = L ''Alice'', counter = 0\<rparr>,
                                                               \<lparr>name = L ''Bob'', counter = 2\<rparr>]\<rparr>)))
       = [0, 0]
   \<and> map g_entries
        (batch_trace ascii_wc2mb [(0, 0)]
           (OnDrawClicked 2 0 0 (initial_state\<lparr>g_entries := [\<lparr>name = L ''Alice'', counter = 0\<rparr>,
                                                               \<lparr>name = L ''Bob'', counter = 2\<rparr>]\<rparr>)))
       = [[\<lparr>name = L ''Alice'', counter = 0\<rparr>, \<lparr>name = L ''Bob'', counter = 2\<rparr>],
          [\<lparr>name = L ''Alice'', counter = 0\<rparr>, \<lparr>name = L ''Bob'', counter = 1\<rparr>]]
   \<and> set (EligibleIndices [\<lparr>name = L ''Alice'', counter = 0\<rparr>, \<lparr>name = L ''Bob'', counter = 1\<rparr>])
       \<subseteq> set (take 1 [0, 0])"
proof -
  let ?s0 = "initial_state\<lparr>g_entries := [\<lparr>name = L ''Alice'', counter = 0\<rparr>,
                                         \<lparr>name = L ''Bob'', counter = 2\<rparr>]\<rparr>"
  let ?s1 = "OnDrawClicked 2 0 0 ?s0"
  let ?s2 = "OnFinishTimer 0 0 (settle ascii_wc2mb ?s1)"
  let ?tr = "batch_trace ascii_wc2mb [(0, 0)] ?s1"
  have a: "g_entries ?s0 \<noteq> []" by code_simp
  have b: "\<not> g_animRunning ?s0" by code_simp
  have c: "(1 :: int) \<le> 2" by simp
  have d: "timers ?s0 = {}" by code_simp
  have ne1: "g_entries ?s1 \<noteq> []" by code_simp
  have t1: "timers ?s1 = {TIMER_ANIM}" by code_simp
  have c1: "Suc (g_drawnCount ?s1) < g_toDrawTotal ?s1" by code_simp
  have t2: "timers ?s2 = {TIMER_ANIM}" by code_simp
  have tr: "?tr = [?s1, ?s2]"
    by (simp only: batch_trace_Cons(1) [OF ne1 t1 c1] batch_trace_Nil(1) [OF t2])
  have w1: "g_animWinnerIdx ?s1 = 0" by code_simp
  have w2: "g_animWinnerIdx ?s2 = 0" by code_simp
  have e1: "g_entries ?s1 = [\<lparr>name = L ''Alice'', counter = 0\<rparr>, \<lparr>name = L ''Bob'', counter = 2\<rparr>]"
    by code_simp
  have e2: "g_entries ?s2 = [\<lparr>name = L ''Alice'', counter = 0\<rparr>, \<lparr>name = L ''Bob'', counter = 1\<rparr>]"
    by code_simp
  have ws: "map g_animWinnerIdx ?tr = [0, 0]" by (simp only: tr list.map w1 w2)
  have es: "map g_entries ?tr
       = [[\<lparr>name = L ''Alice'', counter = 0\<rparr>, \<lparr>name = L ''Bob'', counter = 2\<rparr>],
          [\<lparr>name = L ''Alice'', counter = 0\<rparr>, \<lparr>name = L ''Bob'', counter = 1\<rparr>]]"
    by (simp only: tr list.map e1 e2)
  have l: "1 < length ?tr" by (simp add: tr)
  have n1: "?tr ! 1 = ?s2" by (simp add: tr)
  from batch_repeat_only_after_exhaustion [OF a b c d, of ascii_wc2mb "[(0, 0)]" 0 0] l
  have "g_animWinnerIdx (?tr ! 1) \<in> set (take 1 (map g_animWinnerIdx ?tr))
            \<longrightarrow> set (EligibleIndices (g_entries (?tr ! 1)))
                  \<subseteq> set (take 1 (map g_animWinnerIdx ?tr))"
    by blast
  then have "set (EligibleIndices [\<lparr>name = L ''Alice'', counter = 0\<rparr>, \<lparr>name = L ''Bob'', counter = 1\<rparr>])
       \<subseteq> set (take 1 [0, 0])"
    unfolding n1 w2 e2 ws by simp
  with a b c d ws es show ?thesis by blast
qed

lemma summary_loop_join:
  "fst (summary_loop es idxs (pre, first)) =
     (if idxs = [] then pre
      else (if first then pre else pre @ L '', '') @ join_names (map (\<lambda>i. name (es ! i)) idxs))"
proof (induction idxs arbitrary: pre first)
  case Nil
  then show ?case by (simp add: summary_loop_def)
next
  case (Cons i idxs)
  have "fst (summary_loop es (i # idxs) (pre, first))
      = fst (summary_loop es idxs ((if \<not> first then pre @ L '', '' else pre) @ name (es ! i), False))"
    by (simp add: summary_loop_def)
  also have "\<dots> = (if idxs = [] then (if \<not> first then pre @ L '', '' else pre) @ name (es ! i)
                   else (((if \<not> first then pre @ L '', '' else pre) @ name (es ! i)) @ L '', '')
                        @ join_names (map (\<lambda>i. name (es ! i)) idxs))"
    by (simp add: Cons.IH)
  finally show ?case
    by (cases idxs) simp_all
qed

lemma summary_loop_first:
  "fst (summary_loop es idxs (pre, True)) = pre @ join_names (map (\<lambda>i. name (es ! i)) idxs)"
  by (simp add: summary_loop_join)

lemma run_batch_final:
  assumes "g_entries s \<noteq> []" "timers s = {TIMER_ANIM}" "g_drawnCount s < g_toDrawTotal s"
    "g_toDrawTotal s - g_drawnCount s \<le> Suc (length rs)"
  shows "\<not> g_animRunning (run_batch wc rs s)
    \<and> timers (run_batch wc rs s) = {}
    \<and> map name (g_entries (run_batch wc rs s)) = map name (g_entries s)
    \<and> status (run_batch wc rs s) =
        L ''Runde beendet '' @ [0x2013] @ L '' Gewinner: ''
        @ join_names (map (\<lambda>i. name (g_entries (run_batch wc rs s) ! i))
            (sorted_list_of_set (g_roundSelectedIdx s
               \<union> set (map g_animWinnerIdx (batch_trace wc rs s)))))"
  using assms
proof (induction rs arbitrary: s)
  case Nil
  then have f: "\<not> Suc (g_drawnCount s) < g_toDrawTotal s" by simp
  show ?case
    using Nil.prems(2)
    by (simp add: batch_trace_last [OF Nil.prems(2) f] settle_finish [OF f] FinishRound_fields
          g_entries_FinishRound summary_loop_first map_name_commit)
next
  case (Cons r rs)
  obtain r1 r2 where r: "r = (r1, r2)" by (cases r)
  show ?case
  proof (cases "Suc (g_drawnCount s) < g_toDrawTotal s")
    case f: False
    show ?thesis
      using Cons.prems(2)
      by (simp add: batch_trace_last [OF Cons.prems(2) f] settle_finish [OF f] FinishRound_fields
            g_entries_FinishRound summary_loop_first map_name_commit)
  next
    case True
    let ?s' = "OnFinishTimer r1 r2 (settle wc s)"
    note nd = next_draw [OF Cons.prems(1,2) True]
    have ne: "g_entries ?s' \<noteq> []"
      using nd(2) commit_nonempty [OF Cons.prems(1)] by simp
    have dc: "g_drawnCount ?s' < g_toDrawTotal ?s'"
      using True by (simp add: nd(6,7))
    have en: "g_toDrawTotal ?s' - g_drawnCount ?s' \<le> Suc (length rs)"
      using Cons.prems(4) by (simp add: nd(6,7))
    note ih = Cons.IH [OF ne nd(3) dc en]
    have nm: "map name (g_entries ?s') = map name (g_entries s)"
      by (simp add: nd(2) map_name_commit)
    have sel: "g_roundSelectedIdx ?s' \<union> set (map g_animWinnerIdx (batch_trace wc rs ?s'))
             = g_roundSelectedIdx s \<union> set (map g_animWinnerIdx (s # batch_trace wc rs ?s'))"
      by (simp add: nd(5))
    show ?thesis
      unfolding r batch_trace_Cons [OF Cons.prems(1,2) True]
      using ih unfolding nm sel .
  qed
qed


lemma names_by_index:
  assumes "map name es' = map name es" "\<forall>i\<in>set idxs. i < length es"
  shows "map (\<lambda>i. name (es' ! i)) idxs = map (\<lambda>i. name (es ! i)) idxs"
proof (rule map_cong [OF refl])
  fix i assume "i \<in> set idxs"
  with assms(2) have i: "i < length es" by blast
  from assms(1) have l: "length es' = length es" by (rule map_eq_imp_length_eq)
  have "name (es' ! i) = map name es' ! i" using i l by simp
  also have "\<dots> = map name es ! i" by (simp only: assms(1))
  also have "\<dots> = name (es ! i)" using i by simp
  finally show "name (es' ! i) = name (es ! i)" .
qed

text \<open>
  C9 (as amended). A batch started by \<open>OnDrawClicked\<close> on a non-empty roster, given the
  random numbers for its draws, makes \<open>min(n, roster size)\<close> draws and ends in
  \<open>FinishRound\<close>; the status text is then \<open>Runde beendet - Gewinner: \<close> followed by the
  names of the indices that won, each index once, in ascending order of the indices
  (the order of \<open>std::set<int>\<close>), separated by \<open>", "\<close>.
\<close>

theorem batch_summary_ascending_indices:
  assumes "g_entries s0 \<noteq> []" "\<not> g_animRunning s0" "1 \<le> n" "timers s0 = {}"
    "min (nat n) (length (g_entries s0)) \<le> Suc (length rs)"
  shows "length (batch_trace wc rs (OnDrawClicked n r1 r2 s0)) = min (nat n) (length (g_entries s0))
    \<and> \<not> g_animRunning (run_batch wc rs (OnDrawClicked n r1 r2 s0))
    \<and> status (run_batch wc rs (OnDrawClicked n r1 r2 s0)) =
        L ''Runde beendet '' @ [0x2013] @ L '' Gewinner: ''
        @ join_names (map (\<lambda>i. name (g_entries s0 ! i))
            (sorted_list_of_set
               (set (map g_animWinnerIdx (batch_trace wc rs (OnDrawClicked n r1 r2 s0))))))"
proof -
  let ?s = "OnDrawClicked n r1 r2 s0"
  let ?tr = "batch_trace wc rs ?s"
  let ?ws = "map g_animWinnerIdx ?tr"
  note f = OnDrawClicked_fields [OF assms(1-4), of r1 r2]
  have ne: "g_entries ?s \<noteq> []" using f(1) assms(1) by simp
  have dc: "g_drawnCount ?s < g_toDrawTotal ?s"
    using assms(1,3) by (simp add: f(3,4))
  have en: "g_toDrawTotal ?s - g_drawnCount ?s \<le> Suc (length rs)"
    using assms(5) by (simp add: f(3,4))
  note bt = batch_trace_props [OF ne f(2) dc f(7), of wc rs]
  have len: "length ?tr = min (nat n) (length (g_entries s0))"
    using bt assms(5) by (simp add: f(3,4))
  note fin = run_batch_final [OF ne f(2) dc en, of wc]
  have rng: "\<forall>i\<in>set (sorted_list_of_set (set ?ws)). i < length (g_entries s0)"
  proof
    fix i assume "i \<in> set (sorted_list_of_set (set ?ws))"
    then have "i \<in> set ?ws" by simp
    then obtain k where k: "k < length ?tr" and i: "i = g_animWinnerIdx (?tr ! k)"
      by (auto simp: in_set_conv_nth)
    note btk = bt [THEN conjunct2, rule_format, OF k]
    from btk have w: "i \<in> set (draw_pool (g_entries (?tr ! k)) (g_roundExcludedIdx (?tr ! k)))"
      and nm: "map name (g_entries (?tr ! k)) = map name (g_entries ?s)"
      unfolding i by blast+
    from w set_draw_pool have "i \<in> set (EligibleIndices (g_entries (?tr ! k)))" by blast
    then have "i < length (g_entries (?tr ! k))" by (rule EligibleIndices_less)
    moreover have "length (g_entries (?tr ! k)) = length (g_entries ?s)"
      using nm by (rule map_eq_imp_length_eq)
    ultimately show "i < length (g_entries s0)" by (simp add: f(1))
  qed
  have nmf: "map name (g_entries (run_batch wc rs ?s)) = map name (g_entries s0)"
    using fin by (simp add: f(1))
  have "status (run_batch wc rs ?s) =
        L ''Runde beendet '' @ [0x2013] @ L '' Gewinner: ''
        @ join_names (map (\<lambda>i. name (g_entries (run_batch wc rs ?s) ! i))
            (sorted_list_of_set (set ?ws)))"
    using fin by (simp add: f(6))
  also have "map (\<lambda>i. name (g_entries (run_batch wc rs ?s) ! i)) (sorted_list_of_set (set ?ws))
           = map (\<lambda>i. name (g_entries s0 ! i)) (sorted_list_of_set (set ?ws))"
    by (rule names_by_index [OF nmf rng])
  finally show ?thesis using len fin by blast
qed

theorem batch_summary_ascending_indices_witness:
  "g_entries scenario_state \<noteq> [] \<and> \<not> g_animRunning scenario_state \<and> (1 :: int) \<le> 2
   \<and> timers scenario_state = {}
   \<and> min (nat 2) (length (g_entries scenario_state)) \<le> Suc (length [(0 :: nat, 0 :: nat)])
   \<and> map g_animWinnerIdx (batch_trace ascii_wc2mb [(0, 0)] (OnDrawClicked 2 0 0 scenario_state))
       = [0, 1]
   \<and> status (run_batch ascii_wc2mb [(0, 0)] (OnDrawClicked 2 0 0 scenario_state))
       = L ''Runde beendet '' @ [0x2013] @ L '' Gewinner: '' @ L ''Alice, Bob''"
proof -
  let ?s1 = "OnDrawClicked 2 0 0 scenario_state"
  let ?s2 = "OnFinishTimer 0 0 (settle ascii_wc2mb ?s1)"
  let ?tr = "batch_trace ascii_wc2mb [(0, 0)] ?s1"
  have a: "g_entries scenario_state \<noteq> []" by code_simp
  have b: "\<not> g_animRunning scenario_state" by code_simp
  have c: "(1 :: int) \<le> 2" by simp
  have d: "timers scenario_state = {}" by code_simp
  have e: "min (nat 2) (length (g_entries scenario_state)) \<le> Suc (length [(0 :: nat, 0 :: nat)])"
    by code_simp
  have ne1: "g_entries ?s1 \<noteq> []" by code_simp
  have t1: "timers ?s1 = {TIMER_ANIM}" by code_simp
  have c1: "Suc (g_drawnCount ?s1) < g_toDrawTotal ?s1" by code_simp
  have t2: "timers ?s2 = {TIMER_ANIM}" by code_simp
  have tr: "?tr = [?s1, ?s2]"
    by (simp only: batch_trace_Cons(1) [OF ne1 t1 c1] batch_trace_Nil(1) [OF t2])
  have w1: "g_animWinnerIdx ?s1 = 0" by code_simp
  have w2: "g_animWinnerIdx ?s2 = 1" by code_simp
  have ws: "map g_animWinnerIdx ?tr = [0, 1]" by (simp only: tr list.map w1 w2)
  have j: "join_names (map (\<lambda>i. name (g_entries scenario_state ! i))
             (sorted_list_of_set (set [0, 1]))) = L ''Alice, Bob''"
    by code_simp
  from batch_summary_ascending_indices [OF a b c d e, of ascii_wc2mb 0 0]
  have "status (run_batch ascii_wc2mb [(0, 0)] ?s1)
       = L ''Runde beendet '' @ [0x2013] @ L '' Gewinner: '' @ L ''Alice, Bob''"
    unfolding ws j by blast
  with a b c d e ws show ?thesis by blast
qed

text \<open>
  The claim as stated has the summary in draw order. On a roster of two entries at
  counter 0 with Bob (index 1) drawn first and Alice (index 0) second, the status text
  lists Alice before Bob.
\<close>

theorem batch_summary_draw_order_counterexample:
  "map g_animWinnerIdx
     (batch_trace ascii_wc2mb [(0, 0)]
        (OnDrawClicked 2 1 0 (initial_state\<lparr>g_entries := [\<lparr>name = L ''Alice'', counter = 0\<rparr>,
                                                            \<lparr>name = L ''Bob'', counter = 0\<rparr>]\<rparr>)))
     = [1, 0]
   \<and> map (\<lambda>i. name ([\<lparr>name = L ''Alice'', counter = 0\<rparr>, \<lparr>name = L ''Bob'', counter = 0\<rparr>] ! i)) [1, 0]
     = [L ''Bob'', L ''Alice'']
   \<and> status (run_batch ascii_wc2mb [(0, 0)]
        (OnDrawClicked 2 1 0 (initial_state\<lparr>g_entries := [\<lparr>name = L ''Alice'', counter = 0\<rparr>,
                                                            \<lparr>name = L ''Bob'', counter = 0\<rparr>]\<rparr>)))
     = L ''Runde beendet '' @ [0x2013] @ L '' Gewinner: '' @ join_names [L ''Alice'', L ''Bob'']
   \<and> L ''Runde beendet '' @ [0x2013] @ L '' Gewinner: '' @ join_names [L ''Alice'', L ''Bob'']
     \<noteq> L ''Runde beendet '' @ [0x2013] @ L '' Gewinner: '' @ join_names [L ''Bob'', L ''Alice'']"
proof -
  let ?s0 = "initial_state\<lparr>g_entries := [\<lparr>name = L ''Alice'', counter = 0\<rparr>,
                                         \<lparr>name = L ''Bob'', counter = 0\<rparr>]\<rparr>"
  let ?s1 = "OnDrawClicked 2 1 0 ?s0"
  let ?s2 = "OnFinishTimer 0 0 (settle ascii_wc2mb ?s1)"
  have ne1: "g_entries ?s1 \<noteq> []" by code_simp
  have t1: "timers ?s1 = {TIMER_ANIM}" by code_simp
  have c1: "Suc (g_drawnCount ?s1) < g_toDrawTotal ?s1" by code_simp
  have t2: "timers ?s2 = {TIMER_ANIM}" by code_simp
  have tr: "batch_trace ascii_wc2mb [(0, 0)] ?s1 = [?s1, ?s2]"
    by (simp only: batch_trace_Cons(1) [OF ne1 t1 c1] batch_trace_Nil(1) [OF t2])
  have rb: "run_batch ascii_wc2mb [(0, 0)] ?s1 = settle ascii_wc2mb ?s2"
    by (simp only: batch_trace_Cons(2) [OF ne1 t1 c1] batch_trace_Nil(2) [OF t2])
  have w1: "g_animWinnerIdx ?s1 = 1" by code_simp
  have w2: "g_animWinnerIdx ?s2 = 0" by code_simp
  have ws: "map g_animWinnerIdx (batch_trace ascii_wc2mb [(0, 0)] ?s1) = [1, 0]"
    by (simp only: tr list.map w1 w2)
  have st: "status (settle ascii_wc2mb ?s2)
     = L ''Runde beendet '' @ [0x2013] @ L '' Gewinner: '' @ join_names [L ''Alice'', L ''Bob'']"
    by code_simp
  have nm: "map (\<lambda>i. name ([\<lparr>name = L ''Alice'', counter = 0\<rparr>, \<lparr>name = L ''Bob'', counter = 0\<rparr>] ! i)) [1, 0]
     = [L ''Bob'', L ''Alice'']"
    by code_simp
  have neq: "L ''Runde beendet '' @ [0x2013] @ L '' Gewinner: '' @ join_names [L ''Alice'', L ''Bob'']
     \<noteq> L ''Runde beendet '' @ [0x2013] @ L '' Gewinner: '' @ join_names [L ''Bob'', L ''Alice'']"
    by code_simp
  from ws nm st neq show ?thesis unfolding rb by blast
qed

section \<open>Properties of loading and saving\<close>

lemma LoadCSV_unreadable: "LoadCSV mb None None es = (False, es)"
  by (simp add: LoadCSV_def)

text \<open>
  C5. The claim fails on the code. A file that opens and holds a header line but no
  valid row makes \<open>LoadCSV\<close> return \<open>false\<close> with \<open>g_entries\<close> already cleared: the
  roster of the scenario is lost, while \<open>DoLoadFile\<close> shows the error box and leaves
  \<open>g_filePath\<close> as it was. Only the unreadable file leaves the roster in place.
\<close>

theorem LoadCSV_failure_clears_roster:
  "LoadCSV ascii_mb2wc (Some (''Name;Counter'' @ [CHR 0x0A])) None (g_entries scenario_state)
     = (False, [])
   \<and> g_entries scenario_state
       = [\<lparr>name = L ''Alice'', counter = 0\<rparr>, \<lparr>name = L ''Bob'', counter = 0\<rparr>,
          \<lparr>name = L ''Charlie'', counter = 1\<rparr>]
   \<and> g_entries (DoLoadFile ascii_mb2wc (Some (''Name;Counter'' @ [CHR 0x0A])) None
                   (L ''other.csv'') (scenario_state\<lparr>g_filePath := L ''roster.csv''\<rparr>)) = []
   \<and> g_filePath (DoLoadFile ascii_mb2wc (Some (''Name;Counter'' @ [CHR 0x0A])) None
                   (L ''other.csv'') (scenario_state\<lparr>g_filePath := L ''roster.csv''\<rparr>))
       = L ''roster.csv''
   \<and> messageBoxes (DoLoadFile ascii_mb2wc (Some (''Name;Counter'' @ [CHR 0x0A])) None
                   (L ''other.csv'') (scenario_state\<lparr>g_filePath := L ''roster.csv''\<rparr>))
       = [''Fehler beim Laden'']
   \<and> LoadCSV ascii_mb2wc None None (g_entries scenario_state) = (False, g_entries scenario_state)"
  by code_simp

lemma SaveCSV_opened:
  assumes "path @ L ''.tmp'' \<notin> locked fs"
  shows "fst (SaveCSV wc path es fs) = True"
  using assms by (simp add: SaveCSV_def wfopen_wb_def Let_def split: prod.splits)

text \<open>
  C6. The claim fails on the code. With the target file locked (held open by another
  program), the temporary file is written, \<open>_wremove\<close> and \<open>_wrename\<close> fail, \<open>CopyFileW\<close>
  fails and its result is dropped, the temporary file is removed, and \<open>SaveCSV\<close> returns
  \<open>true\<close>: the target still holds its old bytes, not the serialized roster, and
  \<open>FinishRound\<close> shows no error box.
\<close>

theorem SaveCSV_true_without_replacing:
  "fst (SaveCSV ascii_wc2mb (L ''roster.csv'') [\<lparr>name = L ''Alice'', counter = 1\<rparr>]
         \<lparr>files = [L ''roster.csv'' \<mapsto> ''old''], locked = {L ''roster.csv''}\<rparr>) = True
   \<and> files (snd (SaveCSV ascii_wc2mb (L ''roster.csv'') [\<lparr>name = L ''Alice'', counter = 1\<rparr>]
         \<lparr>files = [L ''roster.csv'' \<mapsto> ''old''], locked = {L ''roster.csv''}\<rparr>)) (L ''roster.csv'')
       = Some ''old''
   \<and> files (snd (SaveCSV ascii_wc2mb (L ''roster.csv'') [\<lparr>name = L ''Alice'', counter = 1\<rparr>]
         \<lparr>files = [L ''roster.csv'' \<mapsto> ''old''], locked = {L ''roster.csv''}\<rparr>)) (L ''roster.csv.tmp'')
       = None
   \<and> serialize ascii_wc2mb [\<lparr>name = L ''Alice'', counter = 1\<rparr>]
       = [CHR 0xEF, CHR 0xBB, CHR 0xBF] @ ''Name;Counter'' @ [CHR 0x0D, CHR 0x0A]
         @ ''Alice;1'' @ [CHR 0x0D, CHR 0x0A]
   \<and> serialize ascii_wc2mb [\<lparr>name = L ''Alice'', counter = 1\<rparr>] \<noteq> ''old''
   \<and> messageBoxes (FinishRound ascii_wc2mb
        (initial_state\<lparr>g_entries := [\<lparr>name = L ''Alice'', counter = 1\<rparr>],
                        g_filePath := L ''roster.csv'',
                        disk := \<lparr>files = [L ''roster.csv'' \<mapsto> ''old''],
                                  locked = {L ''roster.csv''}\<rparr>\<rparr>)) = []"
  by code_simp


lemma of_char_digit: "k < 10 \<Longrightarrow> (of_char (char_of (48 + k :: nat)) :: nat) = 48 + k"
  by (simp add: of_char_of)

lemma isdigit_digit: "k < 10 \<Longrightarrow> isdigit (char_of (48 + k :: nat))"
  by (simp add: isdigit_def of_char_digit)

lemma dec_digits_nonempty: "dec_digits n \<noteq> []"
  by (subst dec_digits.simps) simp

lemma dec_digits_isdigit: "\<forall>c\<in>set (dec_digits n). isdigit c"
proof (induction n rule: dec_digits.induct)
  case (1 n)
  show ?case
  proof (cases "n < 10")
    case True
    then show ?thesis by (subst dec_digits.simps) (simp add: isdigit_digit)
  next
    case False
    have "n mod 10 < 10" by simp
    then have "isdigit (char_of (48 + n mod 10))" by (rule isdigit_digit)
    with "1.IH" [OF False] False show ?thesis
      by (subst dec_digits.simps) auto
  qed
qed

lemma digits_value_snoc:
  "digits_value (ds @ [c]) = 10 * digits_value ds + (of_char c - 48)"
  by (simp add: digits_value_def)

lemma digits_value_dec_digits: "digits_value (dec_digits n) = n"
proof (induction n rule: dec_digits.induct)
  case (1 n)
  show ?case
  proof (cases "n < 10")
    case True
    then show ?thesis
      by (subst dec_digits.simps) (simp add: digits_value_def of_char_digit)
  next
    case False
    have "n mod 10 < 10" by simp
    then have "(of_char (char_of (48 + n mod 10)) :: nat) = 48 + n mod 10"
      by (rule of_char_digit)
    with "1.IH" [OF False] False show ?thesis
      by (subst dec_digits.simps) (simp add: digits_value_snoc)
  qed
qed

lemma isdigit_not_special:
  assumes "isdigit c"
  shows "\<not> isspace c" "c \<noteq> CHR ''-''" "c \<noteq> CHR ''+''" "c \<noteq> CHR '';''" "c \<noteq> CHR 0x0A"
    "c \<noteq> CHR 0x0D"
  using assms by (auto simp: isdigit_def isspace_def)

lemma hd_dec_digits_isdigit: "isdigit (hd (dec_digits n))"
  using dec_digits_isdigit [of n] dec_digits_nonempty [of n]
  by (cases "dec_digits n") auto

lemma takeWhile_digits:
  assumes "r = [] \<or> \<not> isdigit (hd r)"
  shows "takeWhile isdigit (dec_digits n @ r) = dec_digits n"
proof -
  have "takeWhile isdigit r = []" using assms by (cases r) auto
  then show ?thesis using dec_digits_isdigit [of n] by (simp add: takeWhile_append2)
qed

lemma stoi_digits:
  assumes "r = [] \<or> \<not> isdigit (hd r)" "int n \<le> 2 ^ 31 - 1"
  shows "stoi (dec_digits n @ r) = Some (word_of_int (int n))"
proof -
  obtain d ds where d: "dec_digits n = d # ds"
    using dec_digits_nonempty [of n] by (cases "dec_digits n") auto
  have dd: "isdigit d" using hd_dec_digits_isdigit [of n] d by simp
  note sp = isdigit_not_special [OF dd]
  have tw: "takeWhile isdigit (d # ds @ r) = d # ds"
    using takeWhile_digits [OF assms(1), of n] d by simp
  have dv: "digits_value (d # ds) = n" using digits_value_dec_digits [of n] d by simp
  have "stoi (d # ds @ r) = Some (word_of_int (int n))"
    using sp assms(2) unfolding stoi_def Let_def
    by (simp add: tw dv del: takeWhile.simps)
  then show ?thesis by (simp add: d)
qed

lemma stoi_minus_digits:
  assumes "r = [] \<or> \<not> isdigit (hd r)" "int n \<le> 2 ^ 31"
  shows "stoi (CHR ''-'' # dec_digits n @ r) = Some (word_of_int (- int n))"
proof -
  have sp: "\<not> isspace CHR ''-''" by (simp add: isspace_def)
  have tw: "takeWhile isdigit (dec_digits n @ r) = dec_digits n"
    by (rule takeWhile_digits [OF assms(1)])
  show ?thesis
    using sp assms(2) dec_digits_nonempty [of n] unfolding stoi_def Let_def
    by (simp add: tw digits_value_dec_digits del: takeWhile.simps)
qed

lemma stoi_to_string:
  assumes "r = [] \<or> \<not> isdigit (hd r)"
  shows "stoi (to_string c @ r) = Some c"
proof (cases "sint c < 0")
  case True
  have "- (2 ^ 31) \<le> sint c" using sint_ge [of c] by simp
  then have b: "int (nat (- sint c)) \<le> 2 ^ 31" using True by simp
  have "word_of_int (- int (nat (- sint c))) = c" using True by simp
  with stoi_minus_digits [OF assms b] True show ?thesis
    by (simp add: to_string_def)
next
  case False
  have "sint c < 2 ^ 31" using sint_lt [of c] by simp
  then have b: "int (nat (sint c)) \<le> 2 ^ 31 - 1" using False by simp
  have "word_of_int (int (nat (sint c))) = c" using False by simp
  with stoi_digits [OF assms b] False show ?thesis
    by (simp add: to_string_def)
qed

lemma to_string_chars:
  "CHR '';'' \<notin> set (to_string c)" "CHR 0x0A \<notin> set (to_string c)"
  using dec_digits_isdigit isdigit_not_special(4,5)
  by (auto simp: to_string_def)


lemma find_first_not_of_Some:
  assumes "find_first_not_of s cs = Some b"
  shows "b < length s" "s ! b \<notin> set cs" "b = length (takeWhile (\<lambda>c. c \<in> set cs) s)"
proof -
  from assms have b: "b = length (takeWhile (\<lambda>c. c \<in> set cs) s)" and ne: "b \<noteq> length s"
    by (auto simp: find_first_not_of_def Let_def split: if_splits)
  have "length (takeWhile (\<lambda>c. c \<in> set cs) s) \<le> length s" by (rule length_takeWhile_le)
  with b ne show lt: "b < length s" by simp
  from nth_length_takeWhile [of "\<lambda>c. c \<in> set cs" s] lt b show "s ! b \<notin> set cs" by simp
  show "b = length (takeWhile (\<lambda>c. c \<in> set cs) s)" by (rule b)
qed

lemma find_last_not_of_Some:
  assumes "find_last_not_of s cs = Some e"
  shows "e < length s" "s ! e \<notin> set cs" "\<forall>j. e < j \<and> j < length s \<longrightarrow> s ! j \<in> set cs"
proof -
  let ?k = "length (takeWhile (\<lambda>c. c \<in> set cs) (rev s))"
  from assms have e: "e = length s - 1 - ?k" and ne: "?k \<noteq> length s"
    by (auto simp: find_last_not_of_def Let_def split: if_splits)
  have "?k \<le> length (rev s)" by (rule length_takeWhile_le)
  with ne have k: "?k < length s" by simp
  then show lt: "e < length s" using e by simp
  from nth_length_takeWhile [of "\<lambda>c. c \<in> set cs" "rev s"] k
  have "rev s ! ?k \<notin> set cs" by simp
  moreover have "rev s ! ?k = s ! e" using k e by (simp add: rev_nth)
  ultimately show "s ! e \<notin> set cs" by simp
  show "\<forall>j. e < j \<and> j < length s \<longrightarrow> s ! j \<in> set cs"
  proof (intro allI impI)
    fix j assume j: "e < j \<and> j < length s"
    then have i: "length s - 1 - j < ?k" using e k by arith
    then have "takeWhile (\<lambda>c. c \<in> set cs) (rev s) ! (length s - 1 - j) \<in> set cs"
      using nth_mem [OF i] set_takeWhileD by fastforce
    moreover have "takeWhile (\<lambda>c. c \<in> set cs) (rev s) ! (length s - 1 - j)
                 = rev s ! (length s - 1 - j)"
      using i by (rule takeWhile_nth)
    moreover have "rev s ! (length s - 1 - j) = s ! j"
    proof -
      from j have a: "length s - 1 - j < length s" by arith
      from j have c: "length s - Suc (length s - 1 - j) = j" by arith
      show ?thesis by (simp only: rev_nth [OF a] c)
    qed
    ultimately show "s ! j \<in> set cs" by simp
  qed
qed

lemma find_last_not_of_None:
  assumes "find_last_not_of s cs = None"
  shows "\<forall>c\<in>set s. c \<in> set cs"
proof -
  from assms have "length (takeWhile (\<lambda>c. c \<in> set cs) (rev s)) = length (rev s)"
    by (auto simp: find_last_not_of_def Let_def split: if_splits)
  then have "takeWhile (\<lambda>c. c \<in> set cs) (rev s) = rev s"
    by (metis takeWhile_eq_take take_all order_refl)
  then have "\<forall>c\<in>set (rev s). c \<in> set cs"
    by (metis set_takeWhileD)
  then show ?thesis by simp
qed

lemma Trim_ends:
  assumes "Trim s \<noteq> []"
  shows "hd (Trim s) \<notin> set [0x20, 0x09, 0x0D, 0x0A, 0xFEFF]"
    and "last (Trim s) \<notin> set [0x20, 0x09, 0x0D, 0x0A]"
proof -
  let ?lead = "[0x20, 0x09, 0x0D, 0x0A, 0xFEFF] :: wstring"
  let ?trail = "[0x20, 0x09, 0x0D, 0x0A] :: wstring"
  from assms obtain b where b: "find_first_not_of s ?lead = Some b"
    by (auto simp: Trim_def split: option.splits)
  note fb = find_first_not_of_Some [OF b]
  have nt: "s ! b \<notin> set ?trail" using fb(2) by auto
  obtain e where e: "find_last_not_of s ?trail = Some e"
  proof (cases "find_last_not_of s ?trail")
    case None
    from find_last_not_of_None [OF None] fb(1) have "s ! b \<in> set ?trail"
      using nth_mem by blast
    with nt show ?thesis by contradiction
  next
    case (Some e)
    with that show ?thesis by blast
  qed
  note fe = find_last_not_of_Some [OF e]
  have be: "b \<le> e"
  proof (rule ccontr)
    assume "\<not> b \<le> e"
    with fe(3) fb(1) have "s ! b \<in> set ?trail" by simp
    with nt show False by contradiction
  qed
  have t: "Trim s = take (e - b + 1) (drop b s)"
    by (simp add: Trim_def b e substr_def)
  have "hd (Trim s) = s ! b"
    using fb(1) by (simp add: t hd_drop_conv_nth)
  with fb(2) show "hd (Trim s) \<notin> set ?lead" by simp
  have len: "length (Trim s) = e - b + 1"
    using be fe(1) by (simp add: t)
  have "last (Trim s) = Trim s ! (e - b)"
    using len assms by (simp add: last_conv_nth)
  also have "\<dots> = s ! e"
    using be fe(1) by (simp add: t)
  finally show "last (Trim s) \<notin> set ?trail" using fe(2) by simp
qed

lemma Trim_fixed:
  assumes "s \<noteq> []" "hd s \<notin> set [0x20, 0x09, 0x0D, 0x0A, 0xFEFF]"
    "last s \<notin> set [0x20, 0x09, 0x0D, 0x0A]"
  shows "Trim s = s"
proof -
  from assms(1,2) have "takeWhile (\<lambda>c. c \<in> set [0x20, 0x09, 0x0D, 0x0A, 0xFEFF]) s = []"
    by (cases s) auto
  with assms(1) have b: "find_first_not_of s [0x20, 0x09, 0x0D, 0x0A, 0xFEFF] = Some 0"
    unfolding find_first_not_of_def Let_def by simp
  from assms(1,3) have "takeWhile (\<lambda>c. c \<in> set [0x20, 0x09, 0x0D, 0x0A]) (rev s) = []"
    by (cases s rule: rev_cases) auto
  with assms(1) have e: "find_last_not_of s [0x20, 0x09, 0x0D, 0x0A] = Some (length s - 1)"
    unfolding find_last_not_of_def Let_def by simp
  show ?thesis
    using assms(1) unfolding Trim_def b e by (simp add: substr_def)
qed

lemma Trim_idem: "Trim (Trim s) = Trim s"
proof (cases "Trim s = []")
  case True
  then show ?thesis by (simp add: Trim_def find_first_not_of_def)
next
  case False
  from Trim_fixed [OF False Trim_ends [OF False]] show ?thesis .
qed


lemma read_rows_Nil: "read_rows mb d [] acc = acc"
  by (subst read_rows.simps) (simp add: getline_def)

lemma getline_line:
  assumes "d \<notin> set l"
  shows "getline d (l @ d # rest) = Some (l, rest)"
proof -
  from assms have a: "\<forall>x\<in>set l. x \<noteq> d" by auto
  have "takeWhile (\<lambda>c. c \<noteq> d) (l @ d # rest) = l"
    using a by (simp add: takeWhile_tail takeWhile_eq_all_conv)
  moreover have "dropWhile (\<lambda>c. c \<noteq> d) (l @ d # rest) = d # rest"
    using a by (simp add: dropWhile_append3)
  ultimately show ?thesis by (simp add: getline_def)
qed

lemma getline_last:
  assumes "d \<notin> set l" "l \<noteq> []"
  shows "getline d l = Some (l, [])"
proof -
  from assms(1) have a: "\<forall>x\<in>set l. x \<noteq> d" by auto
  have dw: "dropWhile (\<lambda>c. c \<noteq> d) l = []" using a by simp
  show ?thesis using assms(2) a by (simp add: getline_def dw)
qed

lemma read_rows_line:
  assumes "CHR 0x0A \<notin> set l"
  shows "read_rows mb d (l @ CHR 0x0A # rest) acc = read_rows mb d rest (acc @ parse_line mb d l)"
  by (subst read_rows.simps) (simp add: getline_line [OF assms])

lemma parse_line_retained:
  assumes "e \<in> set (parse_line mb d l)"
  shows "name e \<noteq> []" "name e \<noteq> L ''nan''" "name e \<noteq> L ''None''" "Trim (name e) = name e"
  using assms
  by (auto simp: parse_line_def Let_def Trim_idem split: if_splits prod.splits)

lemma read_rows_retained:
  assumes "\<forall>e\<in>set acc. name e \<noteq> [] \<and> name e \<noteq> L ''nan'' \<and> name e \<noteq> L ''None''
                        \<and> Trim (name e) = name e"
  shows "\<forall>e\<in>set (read_rows mb d s acc). name e \<noteq> [] \<and> name e \<noteq> L ''nan''
            \<and> name e \<noteq> L ''None'' \<and> Trim (name e) = name e"
  using assms
proof (induction mb d s acc rule: read_rows.induct)
  case (1 mb d s acc)
  show ?case
  proof (cases "getline CHR 0x0A s")
    case None
    with "1.prems" show ?thesis by (subst read_rows.simps) simp
  next
    case (Some p)
    obtain line rest where p: "p = (line, rest)" by (cases p)
    have "\<forall>e\<in>set (acc @ parse_line mb d line). name e \<noteq> [] \<and> name e \<noteq> L ''nan''
            \<and> name e \<noteq> L ''None'' \<and> Trim (name e) = name e"
      using "1.prems" parse_line_retained [of _ mb d line] by auto
    from "1.IH" [OF Some p [symmetric] this] show ?thesis
      by (subst read_rows.simps) (simp add: Some p)
  qed
qed

lemma parse_retained:
  assumes "e \<in> set (parse mb bytes)"
  shows "name e \<noteq> []" "name e \<noteq> L ''nan''" "name e \<noteq> L ''None''" "Trim (name e) = name e"
proof -
  have "\<forall>e\<in>set ([] :: NameEntry list). name e \<noteq> [] \<and> name e \<noteq> L ''nan''
            \<and> name e \<noteq> L ''None'' \<and> Trim (name e) = name e"
    by simp
  from read_rows_retained [OF this] assms
  show "name e \<noteq> []" "name e \<noteq> L ''nan''" "name e \<noteq> L ''None''" "Trim (name e) = name e"
    by (auto simp: parse_def load_stream_def Let_def split: prod.splits)
qed

lemma parse_line_entry:
  assumes "CHR '';'' \<notin> set (WideToUtf8 wc (name e))"
    and "Utf8ToWide mb (WideToUtf8 wc (name e)) = name e"
    and "name e \<noteq> []" "name e \<noteq> L ''nan''" "name e \<noteq> L ''None''" "Trim (name e) = name e"
  shows "parse_line mb CHR '';''
           (WideToUtf8 wc (name e) @ '';'' @ to_string (counter e) @ [CHR 0x0D]) = [e]"
proof -
  let ?n = "WideToUtf8 wc (name e)"
  let ?c = "to_string (counter e) @ [CHR 0x0D]"
  have g1: "getline CHR '';'' (?n @ CHR '';'' # to_string (counter e) @ [CHR 0x0D]) = Some (?n, ?c)"
    using getline_line [OF assms(1), of ?c] by simp
  have nc: "CHR '';'' \<notin> set ?c" using to_string_chars(1) [of "counter e"] by simp
  have g2: "getline CHR '';'' ?c = Some (?c, [])"
    by (rule getline_last [OF nc]) simp
  have nd: "[CHR 0x0D] = [] \<or> \<not> isdigit (hd [CHR 0x0D])" by (simp add: isdigit_def)
  have st: "stoi ?c = Some (counter e)" by (rule stoi_to_string [OF nd])
  show ?thesis
    using assms(3-5)
    by (simp add: parse_line_def g1 g2 st assms(2) assms(6) Let_def)
qed

lemma read_rows_serialized:
  assumes "\<forall>e\<in>set es. CHR '';'' \<notin> set (WideToUtf8 wc (name e))
             \<and> CHR 0x0A \<notin> set (WideToUtf8 wc (name e))
             \<and> Utf8ToWide mb (WideToUtf8 wc (name e)) = name e
             \<and> name e \<noteq> [] \<and> name e \<noteq> L ''nan'' \<and> name e \<noteq> L ''None''
             \<and> Trim (name e) = name e"
  shows "read_rows mb CHR '';'' (concat (map (entry_line wc) es)) acc = acc @ es"
  using assms
proof (induction es arbitrary: acc)
  case Nil
  then show ?case by (simp add: read_rows_Nil)
next
  case (Cons e es)
  let ?l = "WideToUtf8 wc (name e) @ '';'' @ to_string (counter e) @ [CHR 0x0D]"
  from Cons.prems have e: "CHR '';'' \<notin> set (WideToUtf8 wc (name e))"
      "CHR 0x0A \<notin> set (WideToUtf8 wc (name e))"
      "Utf8ToWide mb (WideToUtf8 wc (name e)) = name e"
      "name e \<noteq> []" "name e \<noteq> L ''nan''" "name e \<noteq> L ''None''" "Trim (name e) = name e"
    by simp_all
  have nl: "CHR 0x0A \<notin> set ?l"
    using e(2) to_string_chars(2) [of "counter e"] by simp
  have split: "concat (map (entry_line wc) (e # es))
             = ?l @ CHR 0x0A # concat (map (entry_line wc) es)"
    by (simp add: entry_line_def)
  have pl: "parse_line mb CHR '';'' ?l = [e]"
    by (rule parse_line_entry [OF e(1) e(3-7)])
  from Cons.prems have rest: "\<forall>e\<in>set es. CHR '';'' \<notin> set (WideToUtf8 wc (name e))
             \<and> CHR 0x0A \<notin> set (WideToUtf8 wc (name e))
             \<and> Utf8ToWide mb (WideToUtf8 wc (name e)) = name e
             \<and> name e \<noteq> [] \<and> name e \<noteq> L ''nan'' \<and> name e \<noteq> L ''None''
             \<and> Trim (name e) = name e"
    by simp
  show ?case
    unfolding split read_rows_line [OF nl] pl
    using Cons.IH [OF rest, of "acc @ [e]"] by simp
qed

lemma getline_header:
  "getline CHR 0x0A ([CHR 0xEF, CHR 0xBB, CHR 0xBF] @ (''Name;Counter'' @ [CHR 0x0D, CHR 0x0A]) @ rest)
     = Some ([CHR 0xEF, CHR 0xBB, CHR 0xBF] @ ''Name;Counter'' @ [CHR 0x0D], rest)"
  using getline_line [of "CHR 0x0A" "[CHR 0xEF, CHR 0xBB, CHR 0xBF] @ ''Name;Counter'' @ [CHR 0x0D]" rest]
  by simp

lemma DetectDelimiter_header:
  "DetectDelimiter ([CHR 0xEF, CHR 0xBB, CHR 0xBF] @ ''Name;Counter'' @ [CHR 0x0D]) = CHR '';''"
  by (simp add: DetectDelimiter_def)

lemma parse_serialize:
  assumes "\<forall>e\<in>set es. CHR '';'' \<notin> set (WideToUtf8 wc (name e))
             \<and> CHR 0x0A \<notin> set (WideToUtf8 wc (name e))
             \<and> Utf8ToWide mb (WideToUtf8 wc (name e)) = name e
             \<and> name e \<noteq> [] \<and> name e \<noteq> L ''nan'' \<and> name e \<noteq> L ''None''
             \<and> Trim (name e) = name e"
  shows "parse mb (serialize wc es) = es"
  using read_rows_serialized [OF assms, of "[]"]
  by (simp add: parse_def load_stream_def serialize_def getline_header [simplified]
        DetectDelimiter_header [simplified])


text \<open>
  C7 (as amended). For every input byte string, if every retained name, written back by
  \<open>WideToUtf8\<close>, holds no semicolon and no line feed and is read back by \<open>Utf8ToWide\<close> as
  the same name, then parsing the serialized roster gives the roster again, entry for
  entry. (\<open>SaveCSV\<close> always writes semicolons and never quotes a name.)
\<close>

theorem parse_serialize_roundtrip:
  assumes "\<forall>e\<in>set (parse mb bytes).
             CHR '';'' \<notin> set (WideToUtf8 wc (name e))
           \<and> CHR 0x0A \<notin> set (WideToUtf8 wc (name e))
           \<and> Utf8ToWide mb (WideToUtf8 wc (name e)) = name e"
  shows "parse mb (serialize wc (parse mb bytes)) = parse mb bytes"
proof (rule parse_serialize)
  show "\<forall>e\<in>set (parse mb bytes). CHR '';'' \<notin> set (WideToUtf8 wc (name e))
             \<and> CHR 0x0A \<notin> set (WideToUtf8 wc (name e))
             \<and> Utf8ToWide mb (WideToUtf8 wc (name e)) = name e
             \<and> name e \<noteq> [] \<and> name e \<noteq> L ''nan'' \<and> name e \<noteq> L ''None''
             \<and> Trim (name e) = name e"
    using assms parse_retained [of _ mb bytes] by blast
qed

theorem parse_serialize_roundtrip_witness:
  "parse ascii_mb2wc (''Name,Counter'' @ [CHR 0x0A] @ '' Alice ,0'' @ [CHR 0x0A] @ ''Bob,-2,x''
        @ [CHR 0x0D, CHR 0x0A] @ ''nan,5'' @ [CHR 0x0A] @ '' ,1'' @ [CHR 0x0A, CHR 0x0A] @ ''Eve'')
     = [\<lparr>name = L ''Alice'', counter = 0\<rparr>, \<lparr>name = L ''Bob'', counter = - 2\<rparr>,
        \<lparr>name = L ''Eve'', counter = 0\<rparr>]
   \<and> WideToUtf8 ascii_wc2mb (L ''Alice'') = ''Alice''
   \<and> WideToUtf8 ascii_wc2mb (L ''Bob'') = ''Bob''
   \<and> WideToUtf8 ascii_wc2mb (L ''Eve'') = ''Eve''
   \<and> Utf8ToWide ascii_mb2wc ''Alice'' = L ''Alice''
   \<and> Utf8ToWide ascii_mb2wc ''Bob'' = L ''Bob''
   \<and> Utf8ToWide ascii_mb2wc ''Eve'' = L ''Eve''
   \<and> serialize ascii_wc2mb [\<lparr>name = L ''Alice'', counter = 0\<rparr>, \<lparr>name = L ''Bob'', counter = - 2\<rparr>,
        \<lparr>name = L ''Eve'', counter = 0\<rparr>]
     = [CHR 0xEF, CHR 0xBB, CHR 0xBF] @ ''Name;Counter'' @ [CHR 0x0D, CHR 0x0A]
       @ ''Alice;0'' @ [CHR 0x0D, CHR 0x0A] @ ''Bob;-2'' @ [CHR 0x0D, CHR 0x0A]
       @ ''Eve;0'' @ [CHR 0x0D, CHR 0x0A]
   \<and> parse ascii_mb2wc (serialize ascii_wc2mb
        [\<lparr>name = L ''Alice'', counter = 0\<rparr>, \<lparr>name = L ''Bob'', counter = - 2\<rparr>,
         \<lparr>name = L ''Eve'', counter = 0\<rparr>])
     = [\<lparr>name = L ''Alice'', counter = 0\<rparr>, \<lparr>name = L ''Bob'', counter = - 2\<rparr>,
        \<lparr>name = L ''Eve'', counter = 0\<rparr>]"
proof -
  let ?bytes = "''Name,Counter'' @ [CHR 0x0A] @ '' Alice ,0'' @ [CHR 0x0A] @ ''Bob,-2,x''
        @ [CHR 0x0D, CHR 0x0A] @ ''nan,5'' @ [CHR 0x0A] @ '' ,1'' @ [CHR 0x0A, CHR 0x0A] @ ''Eve''"
  let ?es = "[\<lparr>name = L ''Alice'', counter = 0\<rparr>, \<lparr>name = L ''Bob'', counter = - 2\<rparr>,
        \<lparr>name = L ''Eve'', counter = 0\<rparr>]"
  have p: "parse ascii_mb2wc ?bytes = ?es" by code_simp
  have h: "\<forall>e\<in>set ?es. CHR '';'' \<notin> set (WideToUtf8 ascii_wc2mb (name e))
           \<and> CHR 0x0A \<notin> set (WideToUtf8 ascii_wc2mb (name e))
           \<and> Utf8ToWide ascii_mb2wc (WideToUtf8 ascii_wc2mb (name e)) = name e"
    by code_simp
  have s: "serialize ascii_wc2mb ?es
     = [CHR 0xEF, CHR 0xBB, CHR 0xBF] @ ''Name;Counter'' @ [CHR 0x0D, CHR 0x0A]
       @ ''Alice;0'' @ [CHR 0x0D, CHR 0x0A] @ ''Bob;-2'' @ [CHR 0x0D, CHR 0x0A]
       @ ''Eve;0'' @ [CHR 0x0D, CHR 0x0A]"
    by code_simp
  from h have h': "\<forall>e\<in>set (parse ascii_mb2wc ?bytes).
             CHR '';'' \<notin> set (WideToUtf8 ascii_wc2mb (name e))
           \<and> CHR 0x0A \<notin> set (WideToUtf8 ascii_wc2mb (name e))
           \<and> Utf8ToWide ascii_mb2wc (WideToUtf8 ascii_wc2mb (name e)) = name e"
    unfolding p .
  from parse_serialize_roundtrip [OF h']
  have "parse ascii_mb2wc (serialize ascii_wc2mb ?es) = ?es"
    unfolding p .
  moreover have "WideToUtf8 ascii_wc2mb (L ''Alice'') = ''Alice''"
    "WideToUtf8 ascii_wc2mb (L ''Bob'') = ''Bob''"
    "WideToUtf8 ascii_wc2mb (L ''Eve'') = ''Eve''"
    "Utf8ToWide ascii_mb2wc ''Alice'' = L ''Alice''"
    "Utf8ToWide ascii_mb2wc ''Bob'' = L ''Bob''"
    "Utf8ToWide ascii_mb2wc ''Eve'' = L ''Eve''"
    by code_simp+
  ultimately show ?thesis using p s by blast
qed

text \<open>
  The claim as stated fails on a comma-delimited file whose name holds a semicolon: the
  name \<open>A;B\<close> with counter 3 is written as \<open>A;B;3\<close> and read back as \<open>A\<close> with counter 0.
\<close>

theorem parse_serialize_semicolon_counterexample:
  "parse ascii_mb2wc (''N,C'' @ [CHR 0x0A] @ ''A;B,3'' @ [CHR 0x0A])
     = [\<lparr>name = L ''A;B'', counter = 3\<rparr>]
   \<and> serialize ascii_wc2mb (parse ascii_mb2wc (''N,C'' @ [CHR 0x0A] @ ''A;B,3'' @ [CHR 0x0A]))
     = [CHR 0xEF, CHR 0xBB, CHR 0xBF] @ ''Name;Counter'' @ [CHR 0x0D, CHR 0x0A]
       @ ''A;B;3'' @ [CHR 0x0D, CHR 0x0A]
   \<and> parse ascii_mb2wc (serialize ascii_wc2mb
        (parse ascii_mb2wc (''N,C'' @ [CHR 0x0A] @ ''A;B,3'' @ [CHR 0x0A])))
     = [\<lparr>name = L ''A'', counter = 0\<rparr>]
   \<and> parse ascii_mb2wc (serialize ascii_wc2mb
        (parse ascii_mb2wc (''N,C'' @ [CHR 0x0A] @ ''A;B,3'' @ [CHR 0x0A])))
     \<noteq> parse ascii_mb2wc (''N,C'' @ [CHR 0x0A] @ ''A;B,3'' @ [CHR 0x0A])"
  by code_simp

end
